theory Spec2Isabelle
  imports Main
begin

section \<open>Channels\<close>

text \<open>
  A Go channel of byte slices, as the registry uses it for a session's outbound queue
  (\<^verbatim>\<open>Send chan []byte\<close>, made with capacity 256). The state of a channel is the
  sequence of values sent and not yet received, its capacity, and whether it has been
  closed. The Go runtime panics on a send to a closed channel and on closing a closed
  channel; a plain send on a full channel suspends the sending goroutine, which the
  sequential model reports as \<open>WouldBlock\<close>.
\<close>

type_synonym bytes = string

record chan =
  buf :: "bytes list"
  cap :: nat
  closed :: bool

datatype error =
    SendOnClosedChannel
  | CloseOfClosedChannel
  | IndexOutOfRange
  | WouldBlock


definition chan_full :: "chan \<Rightarrow> bool" where
  "chan_full ch = (cap ch \<le> length (buf ch))"

text \<open>\<^verbatim>\<open>ch <- v\<close>: the blocking send.\<close>

definition chan_send :: "bytes \<Rightarrow> chan \<Rightarrow> error + chan" where
  "chan_send v ch =
     (if closed ch then Inl SendOnClosedChannel
      else if chan_full ch then Inl WouldBlock
      else Inr (ch\<lparr>buf := buf ch @ [v]\<rparr>))"

text \<open>
  \<^verbatim>\<open>select { case ch <- v: ... default: ... }\<close>: the send that does not wait.
  \<open>Inr (Some ch')\<close> is the send branch, \<open>Inr None\<close> the default branch.
\<close>

definition chan_try_send :: "bytes \<Rightarrow> chan \<Rightarrow> error + chan option" where
  "chan_try_send v ch =
     (if closed ch then Inl SendOnClosedChannel
      else if chan_full ch then Inr None
      else Inr (Some (ch\<lparr>buf := buf ch @ [v]\<rparr>)))"

text \<open>\<^verbatim>\<open>close(ch)\<close>.\<close>

definition chan_close :: "chan \<Rightarrow> error + chan" where
  "chan_close ch =
     (if closed ch then Inl CloseOfClosedChannel else Inr (ch\<lparr>closed := True\<rparr>))"

section \<open>Clients, messages and the manager\<close>

text \<open>
  The manager's map is keyed by \<^verbatim>\<open>*Client\<close>: two clients are the same session
  exactly when they are the same pointer. A pointer is an address \<open>cref\<close>, and the
  objects behind the pointers live in a store. Each client owns the one channel that was
  made with it, so the channel's state is kept in the client object.
\<close>

type_synonym cref = nat

type_synonym attrs = "string \<rightharpoonup> string"

type_synonym data = "string \<rightharpoonup> attrs"

record Client =
  Conn :: nat
  Send :: chan
  ID :: string
  Data :: data

record Message =
  Type :: string
  Data :: data

text \<open>The goroutines the package starts with a \<^verbatim>\<open>go\<close> statement.\<close>

datatype goroutine =
    GoHandleClientRead cref
  | GoHandleClientWrite cref
  | GoHandleUserData cref
  | GoHandleDeleteUser cref

text \<open>
  \<open>Clients\<close> is \<^verbatim>\<open>manager.Clients\<close>; \<open>heap\<close> holds the client objects;
  \<open>started\<close> lists, in order, the goroutines that \<^verbatim>\<open>Run\<close> has started. The three
  unbuffered channels of the manager carry requests to \<^verbatim>\<open>Run\<close>, which serves them
  one at a time; a request is a value of type \<open>request\<close>.
\<close>

record state =
  Clients :: "cref \<rightharpoonup> bool"
  heap :: "cref \<Rightarrow> Client"
  started :: "goroutine list"

datatype request =
    Register cref
  | Unregister cref
  | Broadcast bytes

definition NewWebSocketManager :: "(cref \<Rightarrow> Client) \<Rightarrow> state" where
  "NewWebSocketManager h = \<lparr>Clients = Map.empty, heap = h, started = []\<rparr>"

definition set_Send :: "cref \<Rightarrow> chan \<Rightarrow> state \<Rightarrow> state" where
  "set_Send client ch st = st\<lparr>heap := (heap st)(client := (heap st client)\<lparr>Send := ch\<rparr>)\<rparr>"

section \<open>Broadcast\<close>

text \<open>
  The body of the loop of \<^verbatim>\<open>BroadcastToAllClients\<close> for one client: try the send;
  in the default branch close the client's channel and delete the client from the map.
\<close>

definition broadcast_one :: "bytes \<Rightarrow> cref \<Rightarrow> state \<Rightarrow> error + state" where
  "broadcast_one message client st =
     (case chan_try_send message (Send (heap st client)) of
        Inl e \<Rightarrow> Inl e
      | Inr (Some ch) \<Rightarrow> Inr (set_Send client ch st)
      | Inr None \<Rightarrow>
          (case chan_close (Send (heap st client)) of
             Inl e \<Rightarrow> Inl e
           | Inr ch \<Rightarrow>
               Inr ((set_Send client ch st)\<lparr>Clients := (Clients st)(client := None)\<rparr>)))"

text \<open>
  \<^verbatim>\<open>for client := range manager.Clients\<close>. Go leaves the order of a map iteration
  open, so the order is an argument: a list that enumerates the keys of the map once each.
  The loop deletes no key but the current one, so every key of the list is still in the
  map when the loop reaches it.
\<close>

fun BroadcastToAllClients :: "cref list \<Rightarrow> bytes \<Rightarrow> state \<Rightarrow> error + state" where
  "BroadcastToAllClients [] message st = Inr st"
| "BroadcastToAllClients (client # rest) message st =
     (case broadcast_one message client st of
        Inl e \<Rightarrow> Inl e
      | Inr st' \<Rightarrow> BroadcastToAllClients rest message st')"

definition enumerates :: "cref list \<Rightarrow> state \<Rightarrow> bool" where
  "enumerates order st = (distinct order \<and> set order = dom (Clients st))"

section \<open>The arbiter loop\<close>

text \<open>
  One turn of the \<^verbatim>\<open>select\<close> of \<^verbatim>\<open>Run\<close>. \<open>order\<close> is the order the map iteration
  takes if this turn broadcasts.
\<close>

fun Run_step :: "cref list \<Rightarrow> request \<Rightarrow> state \<Rightarrow> error + state" where
  "Run_step order (Register client) st =
     Inr (st\<lparr>Clients := (Clients st)(client \<mapsto> True)\<rparr>)"
| "Run_step order (Unregister client) st =
     (case Clients st client of
        None \<Rightarrow> Inr st
      | Some ok \<Rightarrow>
          (case chan_close (Send (heap st client)) of
             Inl e \<Rightarrow> Inl e
           | Inr ch \<Rightarrow>
               Inr ((set_Send client ch st)
                     \<lparr>Clients := (Clients st)(client := None),
                      started := started st @ [GoHandleDeleteUser client]\<rparr>)))"
| "Run_step order (Broadcast message) st = BroadcastToAllClients order message st"

text \<open>\<^verbatim>\<open>Run\<close> on the requests it receives, each with its iteration order.\<close>

fun Run :: "(cref list \<times> request) list \<Rightarrow> state \<Rightarrow> error + state" where
  "Run [] st = Inr st"
| "Run ((order, req) # rest) st =
     (case Run_step order req st of
        Inl e \<Rightarrow> Inl e
      | Inr st' \<Rightarrow> Run rest st')"

section \<open>Broadcast: what one call does\<close>

text \<open>
  What the loop body leaves in one client object: the message appended to the queue, or
  the queue closed when it was full.
\<close>

definition dispatch :: "bytes \<Rightarrow> Client \<Rightarrow> Client" where
  "dispatch message cl =
     (if chan_full (Send cl) then cl\<lparr>Send := (Send cl)\<lparr>closed := True\<rparr>\<rparr>
      else cl\<lparr>Send := (Send cl)\<lparr>buf := buf (Send cl) @ [message]\<rparr>\<rparr>)"

definition after_broadcast :: "cref list \<Rightarrow> bytes \<Rightarrow> state \<Rightarrow> state" where
  "after_broadcast order message st =
     st\<lparr>Clients := (\<lambda>c. if c \<in> set order \<and> chan_full (Send (heap st c)) then None
                         else Clients st c),
        heap := (\<lambda>c. if c \<in> set order then dispatch message (heap st c) else heap st c)\<rparr>"


section \<open>Presence messages\<close>

text \<open>
  \<^verbatim>\<open>encoding/json\<close> is not part of the package: \<^verbatim>\<open>json.Marshal\<close> is the argument
  \<open>marshal\<close>, which returns the encoding or \<open>None\<close> for an error. The four messages
  the package builds all take \<^verbatim>\<open>client.Data\<close> as their data.
\<close>

definition removedMessage :: "Client \<Rightarrow> Message" where
  "removedMessage cl = \<lparr>Type = ''user-removed'', Data = Client.Data cl\<rparr>"

definition selfMessage :: "Client \<Rightarrow> Message" where
  "selfMessage cl = \<lparr>Type = ''user-data'', Data = Client.Data cl\<rparr>"

definition existingUserMsg :: "Client \<Rightarrow> Message" where
  "existingUserMsg cl = \<lparr>Type = ''user-added'', Data = Client.Data cl\<rparr>"

definition newUserMsg :: "Client \<Rightarrow> Message" where
  "newUserMsg cl = \<lparr>Type = ''user-added'', Data = Client.Data cl\<rparr>"

text \<open>
  \<^verbatim>\<open>HandleDeleteUser\<close>: the result is what the goroutine sends on
  \<^verbatim>\<open>manager.Broadcast\<close>: one request, or none when marshalling fails.
\<close>

definition HandleDeleteUser :: "(Message \<Rightarrow> bytes option) \<Rightarrow> cref \<Rightarrow> state \<Rightarrow> request list" where
  "HandleDeleteUser marshal client st =
     (case marshal (removedMessage (heap st client)) of
        None \<Rightarrow> []
      | Some jsonData \<Rightarrow> [Broadcast jsonData])"

text \<open>
  The loop of step 2 of \<^verbatim>\<open>HandleUserData\<close> over the map, in the given order: a
  client with the new client's \<^verbatim>\<open>ID\<close> is skipped, a marshalling error skips the one
  message, and every other message is sent to the new client with a blocking send.
\<close>

fun send_existing :: "(Message \<Rightarrow> bytes option) \<Rightarrow> cref \<Rightarrow> cref list \<Rightarrow> state \<Rightarrow> error + state" where
  "send_existing marshal client [] st = Inr st"
| "send_existing marshal client (existingClient # rest) st =
     (if ID (heap st existingClient) = ID (heap st client)
      then send_existing marshal client rest st
      else (case marshal (existingUserMsg (heap st existingClient)) of
              None \<Rightarrow> send_existing marshal client rest st
            | Some existingUserData \<Rightarrow>
                (case chan_send existingUserData (Send (heap st client)) of
                   Inl e \<Rightarrow> Inl e
                 | Inr ch \<Rightarrow> send_existing marshal client rest (set_Send client ch st))))"

text \<open>
  \<^verbatim>\<open>HandleUserData\<close>: the new state and what the goroutine sends on
  \<^verbatim>\<open>manager.Broadcast\<close> at the end (step 3).
\<close>

definition HandleUserData ::
  "(Message \<Rightarrow> bytes option) \<Rightarrow> cref list \<Rightarrow> cref \<Rightarrow> state \<Rightarrow> error + (state \<times> request list)" where
  "HandleUserData marshal order client st =
     (case marshal (selfMessage (heap st client)) of
        None \<Rightarrow> Inr (st, [])
      | Some jsonData \<Rightarrow>
          (case chan_send jsonData (Send (heap st client)) of
             Inl e \<Rightarrow> Inl e
           | Inr ch \<Rightarrow>
               (case send_existing marshal client order (set_Send client ch st) of
                  Inl e \<Rightarrow> Inl e
                | Inr st' \<Rightarrow>
                    (case marshal (newUserMsg (heap st' client)) of
                       None \<Rightarrow> Inr (st', [])
                     | Some newUserData \<Rightarrow> Inr (st', [Broadcast newUserData])))))"

text \<open>
  \<^verbatim>\<open>HandleClientRead\<close> on the results of \<^verbatim>\<open>ReadMessage\<close> so far (\<open>None\<close> is a read
  error): every frame read is sent on \<^verbatim>\<open>manager.Broadcast\<close> as it is, and the first
  error ends the loop and sends the client on \<^verbatim>\<open>manager.Unregister\<close>.
\<close>

fun HandleClientRead :: "cref \<Rightarrow> bytes option list \<Rightarrow> request list" where
  "HandleClientRead client [] = []"
| "HandleClientRead client (None # rest) = [Unregister client]"
| "HandleClientRead client (Some message # rest) =
     Broadcast message # HandleClientRead client rest"

section \<open>Identity assignment and admission\<close>

text \<open>
  The five names are UTF-8 strings that begin with a four-byte emoji. \<^verbatim>\<open>math/rand\<close>
  is not part of the package: \<^verbatim>\<open>rand.Intn\<close> is the argument \<open>intn\<close>, which reads the
  state of the process-wide source and returns a number and the next state.
\<close>

definition randomNames :: "string list" where
  "randomNames =
     [[CHR 0xF0, CHR 0x9F, CHR 0xA6, CHR 0x8A] @ '' Fox'',
      [CHR 0xF0, CHR 0x9F, CHR 0x90, CHR 0xBC] @ '' Panda'',
      [CHR 0xF0, CHR 0x9F, CHR 0x90, CHR 0xA7] @ '' Penguin'',
      [CHR 0xF0, CHR 0x9F, CHR 0xA6, CHR 0x81] @ '' Lion'',
      [CHR 0xF0, CHR 0x9F, CHR 0x90, CHR 0xB8] @ '' Frog'']"

definition GetRandomName :: "('r \<Rightarrow> nat \<Rightarrow> nat \<times> 'r) \<Rightarrow> 'r \<Rightarrow> error + (string \<times> 'r)" where
  "GetRandomName intn r =
     (case intn r (length randomNames) of
        (i, r') \<Rightarrow>
          if i < length randomNames then Inr (randomNames ! i, r') else Inl IndexOutOfRange)"

text \<open>The verb \<^verbatim>\<open>%d\<close> of \<^verbatim>\<open>fmt.Sprintf\<close> on a number that is not negative.\<close>

fun itoa :: "nat \<Rightarrow> string" where
  "itoa n =
     (if n < 10 then [''0123456789'' ! n]
      else itoa (n div 10) @ [''0123456789'' ! (n mod 10)])"

declare itoa.simps [simp del]

definition GetRandomColor :: "('r \<Rightarrow> nat \<Rightarrow> nat \<times> 'r) \<Rightarrow> 'r \<Rightarrow> string \<times> 'r" where
  "GetRandomColor intn r =
     (case intn r 360 of
        (hue, r') \<Rightarrow> (''hsl('' @ itoa hue @ '', 70%, 60%)'', r'))"

text \<open>
  \<^verbatim>\<open>HandleWebSocketConnections\<close>. \<open>upgraded\<close> is the result of the upgrade (\<open>None\<close>
  for an error), \<open>remoteAddr\<close> is \<^verbatim>\<open>r.RemoteAddr\<close>, \<open>new\<close> is the address of the client
  object the function allocates. The result is the new state, the next state of the
  random source, what the function sends on \<^verbatim>\<open>manager.Register\<close>, and the goroutines
  it starts.
\<close>

definition userData :: "string \<Rightarrow> string \<Rightarrow> string \<Rightarrow> data" where
  "userData remoteAddr name color =
     [''userData'' \<mapsto>
        [''userId'' \<mapsto> remoteAddr, ''userName'' \<mapsto> name, ''userColor'' \<mapsto> color]]"


section \<open>Runs of the whole package\<close>





section \<open>Sequences of register and unregister requests\<close>

fun registered_of :: "request list \<Rightarrow> cref list" where
  "registered_of [] = []"
| "registered_of (Register c # rest) = c # registered_of rest"
| "registered_of (req # rest) = registered_of rest"

text \<open>
  A successful unregistration is one that finds the session in the map; it is the branch
  that starts a \<^verbatim>\<open>HandleDeleteUser\<close> goroutine.
\<close>

fun unregistered_of :: "goroutine list \<Rightarrow> cref list" where
  "unregistered_of [] = []"
| "unregistered_of (GoHandleDeleteUser c # rest) = c # unregistered_of rest"
| "unregistered_of (g # rest) = unregistered_of rest"

fun is_membership :: "request \<Rightarrow> bool" where
  "is_membership (Broadcast message) = False"
| "is_membership req = True"

fun previously_registered :: "cref list \<Rightarrow> request list \<Rightarrow> bool" where
  "previously_registered seen [] = True"
| "previously_registered seen (Register c # rest) = previously_registered (c # seen) rest"
| "previously_registered seen (Unregister c # rest) =
     (c \<in> set seen \<and> previously_registered seen rest)"
| "previously_registered seen (Broadcast message # rest) = previously_registered seen rest"

fun no_reregister :: "request list \<Rightarrow> bool" where
  "no_reregister [] = True"
| "no_reregister (Unregister c # rest) = (Register c \<notin> set rest \<and> no_reregister rest)"
| "no_reregister (req # rest) = no_reregister rest"

section \<open>Admission: what one call does\<close>

text \<open>
  The messages the loop of step 2 sends to the new client, in order: one for each client
  of the iteration whose id differs from the new client's and whose message encodes.
\<close>

definition peer_messages ::
  "(Message \<Rightarrow> bytes option) \<Rightarrow> cref \<Rightarrow> cref list \<Rightarrow> state \<Rightarrow> bytes list" where
  "peer_messages marshal client order st =
     List.map_filter (\<lambda>e. marshal (existingUserMsg (heap st e)))
       (filter (\<lambda>e. ID (heap st e) \<noteq> ID (heap st client)) order)"

text \<open>The state with a list of messages appended to a client's queue.\<close>

definition push :: "cref \<Rightarrow> bytes list \<Rightarrow> state \<Rightarrow> state" where
  "push client bs st =
     set_Send client ((Send (heap st client))\<lparr>buf := buf (Send (heap st client)) @ bs\<rparr>) st"

section \<open>Observations\<close>


text \<open>The content of a client's outbound queue after an operation that may fail.\<close>

definition outbound :: "cref \<Rightarrow> error + state \<Rightarrow> error + bytes list" where
  "outbound c res = (case res of Inl e \<Rightarrow> Inl e | Inr st \<Rightarrow> Inr (buf (Send (heap st c))))"

text \<open>
  The size of the registry and the sessions unregistered with success, after a run that
  may fail.
\<close>

definition registry_size :: "error + state \<Rightarrow> error + nat" where
  "registry_size res =
     (case res of Inl e \<Rightarrow> Inl e | Inr st \<Rightarrow> Inr (card (dom (Clients st))))"

definition successfully_unregistered :: "error + state \<Rightarrow> error + cref list" where
  "successfully_unregistered res =
     (case res of Inl e \<Rightarrow> Inl e | Inr st \<Rightarrow> Inr (unregistered_of (started st)))"

section \<open>Example inputs\<close>

definition example_client :: "string \<Rightarrow> bytes list \<Rightarrow> Client" where
  "example_client addr queue =
     \<lparr>Conn = 0, Send = \<lparr>buf = queue, cap = 256, closed = False\<rparr>, ID = addr,
      Data = userData addr ''Fox'' ''hsl(7, 70%, 60%)''\<rparr>"

text \<open>Three clients A, B and C at the addresses 10, 20 and 30 with empty queues.\<close>

definition example_heap :: "cref \<Rightarrow> Client" where
  "example_heap c =
     (if c = 10 then example_client ''10.0.0.1:5001'' []
      else if c = 20 then example_client ''10.0.0.2:5002'' []
      else if c = 30 then example_client ''10.0.0.3:5003'' []
      else example_client ''10.0.0.9:5009'' [])"

definition example_state :: state where
  "example_state =
     \<lparr>Clients = [10 \<mapsto> True, 20 \<mapsto> True, 30 \<mapsto> True], heap = example_heap, started = []\<rparr>"

text \<open>The same, with the queue of client B at its capacity.\<close>

definition example_state_full :: state where
  "example_state_full =
     example_state\<lparr>heap := example_heap(20 := example_client ''10.0.0.2:5002'' (replicate 256 ''m''))\<rparr>"

text \<open>
  Two registered clients, at the addresses 20 and 30, with the same remote address and
  so the same id, and with different names.
\<close>

definition example_state_same_id :: state where
  "example_state_same_id =
     \<lparr>Clients = [20 \<mapsto> True, 30 \<mapsto> True],
      heap = (\<lambda>c. example_client ''10.0.0.2:5002'' [])
        (20 := (example_client ''10.0.0.2:5002'' [])
           \<lparr>Client.Data := userData ''10.0.0.2:5002'' ''Panda'' ''hsl(99, 70%, 60%)''\<rparr>),
      started = []\<rparr>"



text \<open>A \<^verbatim>\<open>content\<close> envelope as the client of session B writes it.\<close>

definition example_content :: bytes where
  \<open>example_content =
     ''{"type":"content","data":{"content":"<p>hi</p>","position":{"x":10,"y":20},'' @
     ''"userData":{"userId":"10.0.0.2:5002","userName":"Fox","userColor":"hsl(7, 70%, 60%)"}}}''\<close>

text \<open>An encoder that writes the type and the user id.\<close>

definition example_encode :: "Message \<Rightarrow> bytes" where
  "example_encode m =
     Type m @ '' '' @
       (case Message.Data m ''userData'' of
          None \<Rightarrow> []
        | Some u \<Rightarrow> (case u ''userId'' of None \<Rightarrow> [] | Some i \<Rightarrow> i))"

definition example_marshal :: "Message \<Rightarrow> bytes option" where
  "example_marshal m = Some (example_encode m)"

text \<open>A source of numbers that counts: it returns its state, reduced, and steps by one.\<close>

definition counting_intn :: "nat \<Rightarrow> nat \<Rightarrow> nat \<times> nat" where
  "counting_intn r n = (r mod n, Suc r)"

section \<open>Lemmas about broadcast\<close>

lemma broadcast_one_open:
  assumes "\<not> closed (Send (heap st c))"
  shows "broadcast_one message c st = Inr (after_broadcast [c] message st)"
proof (cases "chan_full (Send (heap st c))")
  case True
  have "(set_Send c ((Send (heap st c))\<lparr>closed := True\<rparr>) st)\<lparr>Clients := (Clients st)(c := None)\<rparr>
      = after_broadcast [c] message st"
    using True
    by (intro state.equality) (auto simp: set_Send_def after_broadcast_def dispatch_def fun_eq_iff)
  then show ?thesis
    using assms True
    by (simp add: broadcast_one_def chan_try_send_def chan_close_def)
next
  case False
  have "set_Send c ((Send (heap st c))\<lparr>buf := buf (Send (heap st c)) @ [message]\<rparr>) st
      = after_broadcast [c] message st"
    using False
    by (intro state.equality) (auto simp: set_Send_def after_broadcast_def dispatch_def fun_eq_iff)
  then show ?thesis
    using assms False
    by (simp add: broadcast_one_def chan_try_send_def)
qed

lemma BroadcastToAllClients_eq:
  assumes "distinct order" and "\<forall>c\<in>set order. \<not> closed (Send (heap st c))"
  shows "BroadcastToAllClients order message st = Inr (after_broadcast order message st)"
  using assms
proof (induction order arbitrary: st)
  case Nil
  show ?case by (simp add: after_broadcast_def)
next
  case (Cons c rest)
  let ?st1 = "after_broadcast [c] message st"
  have c_open: "\<not> closed (Send (heap st c))" using Cons.prems by simp
  have notin: "c \<notin> set rest" and dist: "distinct rest" using Cons.prems by simp_all
  have same: "\<And>x. x \<in> set rest \<Longrightarrow> heap ?st1 x = heap st x"
    using notin by (auto simp: after_broadcast_def)
  have open1: "\<forall>x\<in>set rest. \<not> closed (Send (heap ?st1 x))"
    using Cons.prems same by simp
  have step: "BroadcastToAllClients rest message ?st1 = Inr (after_broadcast rest message ?st1)"
    by (rule Cons.IH [OF dist open1])
  have join: "after_broadcast rest message ?st1 = after_broadcast (c # rest) message st"
    using notin
    by (intro state.equality) (auto simp: after_broadcast_def fun_eq_iff)
  show ?case
    by (simp add: broadcast_one_open [OF c_open] step join)
qed

lemma after_broadcast_simps:
  "Clients (after_broadcast order message st) c =
     (if c \<in> set order \<and> chan_full (Send (heap st c)) then None else Clients st c)"
  "heap (after_broadcast order message st) c =
     (if c \<in> set order then dispatch message (heap st c) else heap st c)"
  "started (after_broadcast order message st) = started st"
  by (simp_all add: after_broadcast_def)

lemma dispatch_simps:
  "ID (dispatch message cl) = ID cl"
  "Client.Data (dispatch message cl) = Client.Data cl"
  "Conn (dispatch message cl) = Conn cl"
  "Send (dispatch message cl) =
     (if chan_full (Send cl) then (Send cl)\<lparr>closed := True\<rparr>
      else (Send cl)\<lparr>buf := buf (Send cl) @ [message]\<rparr>)"
  by (simp_all add: dispatch_def)

lemma Run_step_Broadcast_eq:
  assumes "enumerates order st" and "\<forall>c\<in>dom (Clients st). \<not> closed (Send (heap st c))"
  shows "Run_step order (Broadcast message) st = Inr (after_broadcast order message st)"
  using assms by (simp add: enumerates_def BroadcastToAllClients_eq)

lemma dom_after_broadcast:
  assumes "set order = dom (Clients st)"
  shows "dom (Clients (after_broadcast order message st))
      = dom (Clients st) - {c. chan_full (Send (heap st c))}"
proof (rule set_eqI)
  fix c
  show "c \<in> dom (Clients (after_broadcast order message st))
      \<longleftrightarrow> c \<in> dom (Clients st) - {c. chan_full (Send (heap st c))}"
  proof (cases "c \<in> set order")
    case True
    then show ?thesis using assms by (simp add: domIff after_broadcast_simps)
  next
    case False
    then show ?thesis using assms by (simp add: domIff after_broadcast_simps)
  qed
qed

lemma Send_after_broadcast:
  assumes "c \<in> set order"
  shows "Send (heap (after_broadcast order message st) c) =
     (if chan_full (Send (heap st c)) then (Send (heap st c))\<lparr>closed := True\<rparr>
      else (Send (heap st c))\<lparr>buf := buf (Send (heap st c)) @ [message]\<rparr>)"
  using assms by (simp add: after_broadcast_simps dispatch_simps)

section \<open>Claims about broadcast\<close>

text \<open>
  Claim C1. \<^verbatim>\<open>Run\<close> serves one broadcast request in a registry whose sessions have open
  queues, with the map iterated in any order. The call returns. When no session's queue is
  full, the membership is unchanged and every session's queue is its old content followed
  by the envelope. When exactly one session \<open>e\<close> has a full queue, \<open>e\<close> leaves the
  registry, the registry has exactly one session less, the queue of \<open>e\<close> is closed with
  its content unchanged, and every other session's queue is its old content followed by
  the envelope.
\<close>

theorem broadcast_delivers_or_evicts:
  assumes "enumerates order st"
    and "\<forall>c\<in>dom (Clients st). \<not> closed (Send (heap st c))"
  shows "\<exists>st'. Run_step order (Broadcast message) st = Inr st' \<and>
     ((\<forall>c\<in>dom (Clients st). \<not> chan_full (Send (heap st c))) \<longrightarrow>
        dom (Clients st') = dom (Clients st) \<and>
        (\<forall>c\<in>dom (Clients st).
           Send (heap st' c) = (Send (heap st c))\<lparr>buf := buf (Send (heap st c)) @ [message]\<rparr>)) \<and>
     (\<forall>e\<in>dom (Clients st).
        chan_full (Send (heap st e)) \<and>
        (\<forall>c\<in>dom (Clients st). c \<noteq> e \<longrightarrow> \<not> chan_full (Send (heap st c))) \<longrightarrow>
        dom (Clients st') = dom (Clients st) - {e} \<and>
        Suc (card (dom (Clients st'))) = card (dom (Clients st)) \<and>
        Send (heap st' e) = (Send (heap st e))\<lparr>closed := True\<rparr> \<and>
        (\<forall>c\<in>dom (Clients st). c \<noteq> e \<longrightarrow>
           Send (heap st' c) = (Send (heap st c))\<lparr>buf := buf (Send (heap st c)) @ [message]\<rparr>))"
proof -
  let ?st' = "after_broadcast order message st"
  let ?M = "dom (Clients st)"
  let ?F = "{c. chan_full (Send (heap st c))}"
  have run: "Run_step order (Broadcast message) st = Inr ?st'"
    by (rule Run_step_Broadcast_eq [OF assms])
  have mem: "set order = ?M"
    using assms(1) by (simp add: enumerates_def)
  have fin: "finite ?M"
    unfolding mem [symmetric] by (rule finite_set)
  have d: "dom (Clients ?st') = ?M - ?F"
    by (rule dom_after_broadcast [OF mem])
  have s: "Send (heap ?st' c) =
     (if chan_full (Send (heap st c)) then (Send (heap st c))\<lparr>closed := True\<rparr>
      else (Send (heap st c))\<lparr>buf := buf (Send (heap st c)) @ [message]\<rparr>)"
    if "c \<in> ?M" for c
    by (rule Send_after_broadcast) (use that mem in simp)
  have none_full: "dom (Clients ?st') = ?M \<and>
        (\<forall>c\<in>?M. Send (heap ?st' c) = (Send (heap st c))\<lparr>buf := buf (Send (heap st c)) @ [message]\<rparr>)"
    if nf: "\<forall>c\<in>?M. \<not> chan_full (Send (heap st c))"
  proof -
    have "?M - ?F = ?M" using nf by blast
    then have "dom (Clients ?st') = ?M" using d by simp
    moreover have "\<forall>c\<in>?M. Send (heap ?st' c)
        = (Send (heap st c))\<lparr>buf := buf (Send (heap st c)) @ [message]\<rparr>"
      using nf s by simp
    ultimately show ?thesis by (intro conjI)
  qed
  have one_full: "dom (Clients ?st') = ?M - {e} \<and>
        Suc (card (dom (Clients ?st'))) = card ?M \<and>
        Send (heap ?st' e) = (Send (heap st e))\<lparr>closed := True\<rparr> \<and>
        (\<forall>c\<in>?M. c \<noteq> e \<longrightarrow>
           Send (heap ?st' c) = (Send (heap st c))\<lparr>buf := buf (Send (heap st c)) @ [message]\<rparr>)"
    if e: "e \<in> ?M" and full: "chan_full (Send (heap st e))"
      and others: "\<forall>c\<in>?M. c \<noteq> e \<longrightarrow> \<not> chan_full (Send (heap st c))" for e
  proof -
    have "?M - ?F = ?M - {e}" using e full others by blast
    then have d': "dom (Clients ?st') = ?M - {e}" using d by simp
    have "Suc (card (?M - {e})) = card ?M"
      by (rule card_Suc_Diff1 [OF fin e])
    then have c': "Suc (card (dom (Clients ?st'))) = card ?M"
      using d' by simp
    have se: "Send (heap ?st' e) = (Send (heap st e))\<lparr>closed := True\<rparr>"
      using s [OF e] full by simp
    have so: "\<forall>c\<in>?M. c \<noteq> e \<longrightarrow>
           Send (heap ?st' c) = (Send (heap st c))\<lparr>buf := buf (Send (heap st c)) @ [message]\<rparr>"
      using s others by simp
    from d' c' se so show ?thesis by (intro conjI)
  qed
  have A: "(\<forall>c\<in>?M. \<not> chan_full (Send (heap st c))) \<longrightarrow>
        dom (Clients ?st') = ?M \<and>
        (\<forall>c\<in>?M. Send (heap ?st' c) = (Send (heap st c))\<lparr>buf := buf (Send (heap st c)) @ [message]\<rparr>)"
    by (intro impI none_full)
  have B: "\<forall>e\<in>?M.
        chan_full (Send (heap st e)) \<and>
        (\<forall>c\<in>?M. c \<noteq> e \<longrightarrow> \<not> chan_full (Send (heap st c))) \<longrightarrow>
        dom (Clients ?st') = ?M - {e} \<and>
        Suc (card (dom (Clients ?st'))) = card ?M \<and>
        Send (heap ?st' e) = (Send (heap st e))\<lparr>closed := True\<rparr> \<and>
        (\<forall>c\<in>?M. c \<noteq> e \<longrightarrow>
           Send (heap ?st' c) = (Send (heap st c))\<lparr>buf := buf (Send (heap st c)) @ [message]\<rparr>)"
  proof (intro ballI impI)
    fix e
    assume "e \<in> ?M" and "chan_full (Send (heap st e)) \<and>
        (\<forall>c\<in>?M. c \<noteq> e \<longrightarrow> \<not> chan_full (Send (heap st c)))"
    then show "dom (Clients ?st') = ?M - {e} \<and>
        Suc (card (dom (Clients ?st'))) = card ?M \<and>
        Send (heap ?st' e) = (Send (heap st e))\<lparr>closed := True\<rparr> \<and>
        (\<forall>c\<in>?M. c \<noteq> e \<longrightarrow>
           Send (heap ?st' c) = (Send (heap st c))\<lparr>buf := buf (Send (heap st c)) @ [message]\<rparr>)"
      by (intro one_full) (elim conjE, assumption)+
  qed
  from run A B show ?thesis
    by (intro exI [of _ ?st'] conjI)
qed

section \<open>Facts about the example inputs\<close>

lemma example_state_facts:
  "dom (Clients example_state) = {10, 20, 30}"
  "dom (Clients example_state_full) = {10, 20, 30}"
  by (auto simp: example_state_def example_state_full_def)

lemma example_client_simps:
  "Send (example_client addr queue) = \<lparr>buf = queue, cap = 256, closed = False\<rparr>"
  "ID (example_client addr queue) = addr"
  "Client.Data (example_client addr queue) = userData addr ''Fox'' ''hsl(7, 70%, 60%)''"
  by (simp_all add: example_client_def)

lemma example_heap_simps:
  "heap example_state 10 = example_client ''10.0.0.1:5001'' []"
  "heap example_state 20 = example_client ''10.0.0.2:5002'' []"
  "heap example_state 30 = example_client ''10.0.0.3:5003'' []"
  "heap example_state_full 10 = example_client ''10.0.0.1:5001'' []"
  "heap example_state_full 20 = example_client ''10.0.0.2:5002'' (replicate 256 ''m'')"
  "heap example_state_full 30 = example_client ''10.0.0.3:5003'' []"
  by (simp_all add: example_state_def example_state_full_def example_heap_def)

lemma example_open:
  "\<forall>c\<in>dom (Clients example_state). \<not> closed (Send (heap example_state c))"
  "\<forall>c\<in>dom (Clients example_state_full). \<not> closed (Send (heap example_state_full c))"
  by (simp_all add: example_state_facts example_heap_simps example_client_simps)

lemma example_not_closed:
  "\<not> closed (Send (heap example_state 10))"
  "\<not> closed (Send (heap example_state 20))"
  "\<not> closed (Send (heap example_state 30))"
  "\<not> closed (Send (heap example_state_full 10))"
  "\<not> closed (Send (heap example_state_full 20))"
  "\<not> closed (Send (heap example_state_full 30))"
  by (simp_all add: example_heap_simps example_client_simps)

lemma example_not_full:
  "\<not> chan_full (Send (heap example_state 10))"
  "\<not> chan_full (Send (heap example_state 20))"
  "\<not> chan_full (Send (heap example_state 30))"
  "\<not> chan_full (Send (heap example_state_full 10))"
  "\<not> chan_full (Send (heap example_state_full 30))"
  by (simp_all add: example_heap_simps example_client_simps chan_full_def)

lemma example_full:
  "chan_full (Send (heap example_state_full 20))"
  by (simp add: example_heap_simps example_client_simps chan_full_def)

lemma example_enumerates:
  "enumerates [30, 10, 20] example_state"
  "enumerates [30, 10, 20] example_state_full"
  by (auto simp: enumerates_def example_state_facts)

theorem broadcast_delivers_or_evicts_witness:
  "enumerates [30, 10, 20] example_state \<and> enumerates [30, 10, 20] example_state_full \<and>
   dom (Clients example_state) = {10, 20, 30} \<and>
   dom (Clients example_state_full) = {10, 20, 30} \<and>
   \<not> closed (Send (heap example_state 10)) \<and> \<not> closed (Send (heap example_state 20)) \<and>
   \<not> closed (Send (heap example_state 30)) \<and>
   \<not> closed (Send (heap example_state_full 10)) \<and>
   \<not> closed (Send (heap example_state_full 20)) \<and>
   \<not> closed (Send (heap example_state_full 30)) \<and>
   \<not> chan_full (Send (heap example_state 10)) \<and> \<not> chan_full (Send (heap example_state 20)) \<and>
   \<not> chan_full (Send (heap example_state 30)) \<and>
   \<not> chan_full (Send (heap example_state_full 10)) \<and>
   chan_full (Send (heap example_state_full 20)) \<and>
   \<not> chan_full (Send (heap example_state_full 30)) \<and>
   (\<exists>st'. Run_step [30, 10, 20] (Broadcast ''hello'') example_state = Inr st' \<and>
      dom (Clients st') = {10, 20, 30} \<and>
      buf (Send (heap st' 10)) = [''hello''] \<and> buf (Send (heap st' 20)) = [''hello''] \<and>
      buf (Send (heap st' 30)) = [''hello'']) \<and>
   (\<exists>st'. Run_step [30, 10, 20] (Broadcast ''hello'') example_state_full = Inr st' \<and>
      dom (Clients st') = {10, 30} \<and> Suc (card (dom (Clients st'))) = 3 \<and>
      closed (Send (heap st' 20)) \<and> buf (Send (heap st' 20)) = replicate 256 ''m'' \<and>
      buf (Send (heap st' 10)) = [''hello''] \<and> buf (Send (heap st' 30)) = [''hello''])"
proof -
  note e1 = example_enumerates(1) and e2 = example_enumerates(2)
  note o1 = example_open(1) and o2 = example_open(2)
  have f1: "\<forall>c\<in>dom (Clients example_state). \<not> chan_full (Send (heap example_state c))"
    by (simp add: example_state_facts example_heap_simps example_client_simps chan_full_def)
  have f2: "chan_full (Send (heap example_state_full 20))"
    by (simp add: example_heap_simps example_client_simps chan_full_def)
  have f3: "\<forall>c\<in>dom (Clients example_state_full). c \<noteq> 20 \<longrightarrow>
      \<not> chan_full (Send (heap example_state_full c))"
    by (simp add: example_state_facts example_heap_simps example_client_simps chan_full_def)
  have in1: "(10::nat) \<in> dom (Clients example_state)" "(20::nat) \<in> dom (Clients example_state)"
    "(30::nat) \<in> dom (Clients example_state)"
    by (simp_all add: example_state_facts)
  have in2: "(10::nat) \<in> dom (Clients example_state_full)"
    "(20::nat) \<in> dom (Clients example_state_full)"
    "(30::nat) \<in> dom (Clients example_state_full)"
    by (simp_all add: example_state_facts)
  have r1: "\<exists>st'. Run_step [30, 10, 20] (Broadcast ''hello'') example_state = Inr st' \<and>
      dom (Clients st') = {10, 20, 30} \<and>
      buf (Send (heap st' 10)) = [''hello''] \<and> buf (Send (heap st' 20)) = [''hello''] \<and>
      buf (Send (heap st' 30)) = [''hello'']"
  proof -
    from broadcast_delivers_or_evicts [OF e1 o1, of "''hello''"]
    obtain st' where run: "Run_step [30, 10, 20] (Broadcast ''hello'') example_state = Inr st'"
      and A: "(\<forall>c\<in>dom (Clients example_state). \<not> chan_full (Send (heap example_state c))) \<longrightarrow>
        dom (Clients st') = dom (Clients example_state) \<and>
        (\<forall>c\<in>dom (Clients example_state).
           Send (heap st' c) = (Send (heap example_state c))
             \<lparr>buf := buf (Send (heap example_state c)) @ [''hello'']\<rparr>)"
      by (elim exE conjE) (rule that, assumption+)
    note concl = mp [OF A f1]
    note d = concl [THEN conjunct1] and s = concl [THEN conjunct2]
    have "dom (Clients st') = {10, 20, 30}"
      using d by (simp add: example_state_facts)
    moreover have "buf (Send (heap st' 10)) = [''hello'']"
      using bspec [OF s in1(1)] by (simp add: example_heap_simps example_client_simps)
    moreover have "buf (Send (heap st' 20)) = [''hello'']"
      using bspec [OF s in1(2)] by (simp add: example_heap_simps example_client_simps)
    moreover have "buf (Send (heap st' 30)) = [''hello'']"
      using bspec [OF s in1(3)] by (simp add: example_heap_simps example_client_simps)
    ultimately show ?thesis
      using run by (intro exI [of _ st'] conjI)
  qed
  have r2: "\<exists>st'. Run_step [30, 10, 20] (Broadcast ''hello'') example_state_full = Inr st' \<and>
      dom (Clients st') = {10, 30} \<and> Suc (card (dom (Clients st'))) = 3 \<and>
      closed (Send (heap st' 20)) \<and> buf (Send (heap st' 20)) = replicate 256 ''m'' \<and>
      buf (Send (heap st' 10)) = [''hello''] \<and> buf (Send (heap st' 30)) = [''hello'']"
  proof -
    from broadcast_delivers_or_evicts [OF e2 o2, of "''hello''"]
    obtain st' where run: "Run_step [30, 10, 20] (Broadcast ''hello'') example_state_full = Inr st'"
      and B: "\<forall>e\<in>dom (Clients example_state_full).
        chan_full (Send (heap example_state_full e)) \<and>
        (\<forall>c\<in>dom (Clients example_state_full). c \<noteq> e \<longrightarrow>
           \<not> chan_full (Send (heap example_state_full c))) \<longrightarrow>
        dom (Clients st') = dom (Clients example_state_full) - {e} \<and>
        Suc (card (dom (Clients st'))) = card (dom (Clients example_state_full)) \<and>
        Send (heap st' e) = (Send (heap example_state_full e))\<lparr>closed := True\<rparr> \<and>
        (\<forall>c\<in>dom (Clients example_state_full). c \<noteq> e \<longrightarrow>
           Send (heap st' c) = (Send (heap example_state_full c))
             \<lparr>buf := buf (Send (heap example_state_full c)) @ [''hello'']\<rparr>)"
      by (elim exE conjE) (rule that, assumption+)
    note concl = mp [OF bspec [OF B in2(2)] conjI [OF f2 f3]]
    note d = concl [THEN conjunct1]
      and c = concl [THEN conjunct2, THEN conjunct1]
      and se = concl [THEN conjunct2, THEN conjunct2, THEN conjunct1]
      and so = concl [THEN conjunct2, THEN conjunct2, THEN conjunct2]
    have "{10, 20, 30} - {20} = {10, 30::nat}"
      by (simp add: insert_Diff_if)
    then have "dom (Clients st') = {10, 30}"
      using d by (simp only: example_state_facts)
    moreover have "Suc (card (dom (Clients st'))) = 3"
      using c by (simp add: example_state_facts)
    moreover have "closed (Send (heap st' 20))"
      using se by simp
    moreover have "buf (Send (heap st' 20)) = replicate 256 ''m''"
      using se by (simp add: example_heap_simps example_client_simps)
    moreover have "buf (Send (heap st' 10)) = [''hello'']"
      using mp [OF bspec [OF so in2(1)]] by (simp add: example_heap_simps example_client_simps)
    moreover have "buf (Send (heap st' 30)) = [''hello'']"
      using mp [OF bspec [OF so in2(3)]] by (simp add: example_heap_simps example_client_simps)
    ultimately show ?thesis
      using run by (intro exI [of _ st'] conjI)
  qed
  from e1 e2 example_state_facts example_not_closed example_not_full example_full r1 r2
  show ?thesis
    by (intro conjI)
qed

section \<open>Claims about unregistration and eviction\<close>

text \<open>
  Claim C5. Unregistering a session that is not in the registry changes nothing: the
  result is the state as it was, so the membership is the same, no goroutine is started
  that would broadcast, no queue is closed, and the result is not an error.
\<close>

theorem unregister_absent_noop:
  assumes "Clients st client = None"
  shows "Run_step order (Unregister client) st = Inr st"
  using assms by simp

theorem unregister_absent_noop_witness:
  "Clients example_state 40 = None \<and>
   Run_step [10, 20, 30] (Unregister 40) example_state = Inr example_state"
proof -
  have absent: "Clients example_state 40 = None"
    by (simp add: example_state_def)
  from absent unregister_absent_noop [OF absent, of "[10, 20, 30]"] show ?thesis
    by (intro conjI)
qed

lemma started_broadcast_one:
  assumes "broadcast_one message c st = Inr st'"
  shows "started st' = started st"
  using assms
  by (auto simp: broadcast_one_def set_Send_def split: sum.splits option.splits)

lemma started_BroadcastToAllClients:
  assumes "BroadcastToAllClients order message st = Inr st'"
  shows "started st' = started st"
  using assms
proof (induction order arbitrary: st)
  case Nil
  then show ?case by simp
next
  case (Cons c rest)
  show ?case
  proof (cases "broadcast_one message c st")
    case (Inl e)
    then show ?thesis using Cons.prems by simp
  next
    case (Inr st1)
    then have "BroadcastToAllClients rest message st1 = Inr st'"
      using Cons.prems by simp
    then have "started st' = started st1"
      by (rule Cons.IH)
    then show ?thesis
      by (simp add: started_broadcast_one [OF Inr])
  qed
qed

lemma started_only_by_unregister:
  assumes "Run_step order req st = Inr st'" and "started st' \<noteq> started st"
  shows "\<exists>c. req = Unregister c \<and> Clients st c \<noteq> None \<and>
     started st' = started st @ [GoHandleDeleteUser c]"
proof (cases req)
  case (Register c)
  then show ?thesis using assms by auto
next
  case (Unregister c)
  then show ?thesis
    using assms by (auto split: option.splits sum.splits simp: set_Send_def)
next
  case (Broadcast message)
  then show ?thesis
    using assms started_BroadcastToAllClients [of order message st st'] by simp
qed

text \<open>
  Claim C10. A broadcast starts no goroutine, so a session evicted for a full queue gets
  no \<^verbatim>\<open>user-removed\<close> message: the evicted session is out of the map with its queue
  closed, the sessions that remain have received the broadcast envelope and nothing else,
  and a later unregistration of the evicted session changes nothing, since it is no
  longer a member. The only turn of \<^verbatim>\<open>Run\<close> that starts a goroutine, in any state, is
  the unregistration of a session that is in the map, and what it starts is
  \<^verbatim>\<open>HandleDeleteUser\<close> for that session.
\<close>

theorem eviction_is_silent:
  assumes "enumerates order st"
    and "\<forall>c\<in>dom (Clients st). \<not> closed (Send (heap st c))"
  shows "\<exists>st'. Run_step order (Broadcast message) st = Inr st' \<and>
     started st' = started st \<and>
     (\<forall>e\<in>dom (Clients st). chan_full (Send (heap st e)) \<longrightarrow>
        Clients st' e = None \<and> closed (Send (heap st' e)) \<and>
        Run_step order' (Unregister e) st' = Inr st') \<and>
     (\<forall>c\<in>dom (Clients st').
        buf (Send (heap st' c)) = buf (Send (heap st c)) @ [message]) \<and>
     (\<forall>req st0 st1. Run_step order' req st0 = Inr st1 \<and> started st1 \<noteq> started st0 \<longrightarrow>
        (\<exists>c. req = Unregister c \<and> Clients st0 c \<noteq> None \<and>
           started st1 = started st0 @ [GoHandleDeleteUser c]))"
proof -
  let ?st' = "after_broadcast order message st"
  have run: "Run_step order (Broadcast message) st = Inr ?st'"
    by (rule Run_step_Broadcast_eq [OF assms])
  have mem: "set order = dom (Clients st)"
    using assms(1) by (simp add: enumerates_def)
  have started: "started ?st' = started st"
    by (simp add: after_broadcast_simps)
  have evicted: "\<forall>e\<in>dom (Clients st). chan_full (Send (heap st e)) \<longrightarrow>
        Clients ?st' e = None \<and> closed (Send (heap ?st' e)) \<and>
        Run_step order' (Unregister e) ?st' = Inr ?st'"
  proof (intro ballI impI)
    fix e
    assume e: "e \<in> dom (Clients st)" and full: "chan_full (Send (heap st e))"
    have 1: "Clients ?st' e = None"
      using e full mem by (simp add: after_broadcast_simps)
    have 2: "closed (Send (heap ?st' e))"
      using e full mem by (simp add: after_broadcast_simps dispatch_simps)
    have 3: "Run_step order' (Unregister e) ?st' = Inr ?st'"
      using 1 by simp
    from 1 2 3 show "Clients ?st' e = None \<and> closed (Send (heap ?st' e)) \<and>
        Run_step order' (Unregister e) ?st' = Inr ?st'"
      by (intro conjI)
  qed
  have remaining: "\<forall>c\<in>dom (Clients ?st').
        buf (Send (heap ?st' c)) = buf (Send (heap st c)) @ [message]"
  proof
    fix c
    assume "c \<in> dom (Clients ?st')"
    then have "c \<in> dom (Clients st) - {c. chan_full (Send (heap st c))}"
      by (simp only: dom_after_broadcast [OF mem])
    then have "c \<in> set order" and "\<not> chan_full (Send (heap st c))"
      using mem by simp_all
    then show "buf (Send (heap ?st' c)) = buf (Send (heap st c)) @ [message]"
      by (simp add: after_broadcast_simps dispatch_simps)
  qed
  have only: "\<forall>req st0 st1. Run_step order' req st0 = Inr st1 \<and> started st1 \<noteq> started st0 \<longrightarrow>
        (\<exists>c. req = Unregister c \<and> Clients st0 c \<noteq> None \<and>
           started st1 = started st0 @ [GoHandleDeleteUser c])"
  proof (intro allI impI)
    fix req st0 st1
    assume a: "Run_step order' req st0 = Inr st1 \<and> started st1 \<noteq> started st0"
    show "\<exists>c. req = Unregister c \<and> Clients st0 c \<noteq> None \<and>
           started st1 = started st0 @ [GoHandleDeleteUser c]"
      by (rule started_only_by_unregister [OF a [THEN conjunct1] a [THEN conjunct2]])
  qed
  from run started evicted remaining only show ?thesis
    by (intro exI [of _ ?st'] conjI)
qed

theorem eviction_is_silent_witness:
  "enumerates [30, 10, 20] example_state_full \<and>
   dom (Clients example_state_full) = {10, 20, 30} \<and>
   \<not> closed (Send (heap example_state_full 10)) \<and>
   \<not> closed (Send (heap example_state_full 20)) \<and>
   \<not> closed (Send (heap example_state_full 30)) \<and>
   chan_full (Send (heap example_state_full 20)) \<and>
   (\<exists>st'. Run_step [30, 10, 20] (Broadcast ''hello'') example_state_full = Inr st' \<and>
      started st' = [] \<and> Clients st' 20 = None \<and> closed (Send (heap st' 20)) \<and>
      Run_step [10, 30] (Unregister 20) st' = Inr st')"
proof -
  note e = example_enumerates(2) and o = example_open(2)
  have f: "chan_full (Send (heap example_state_full 20))"
    by (simp add: example_heap_simps example_client_simps chan_full_def)
  have m: "(20::nat) \<in> dom (Clients example_state_full)"
    by (simp add: example_state_facts)
  have s: "started example_state_full = []"
    by (simp add: example_state_full_def example_state_def)
  from eviction_is_silent [OF e o, of "''hello''" "[10, 30]"]
  obtain st' where run: "Run_step [30, 10, 20] (Broadcast ''hello'') example_state_full = Inr st'"
    and st: "started st' = started example_state_full"
    and ev: "\<forall>e\<in>dom (Clients example_state_full).
        chan_full (Send (heap example_state_full e)) \<longrightarrow>
        Clients st' e = None \<and> closed (Send (heap st' e)) \<and>
        Run_step [10, 30] (Unregister e) st' = Inr st'"
    by (elim exE conjE) (rule that, assumption+)
  note concl = mp [OF bspec [OF ev m] f]
  have "\<exists>st'. Run_step [30, 10, 20] (Broadcast ''hello'') example_state_full = Inr st' \<and>
      started st' = [] \<and> Clients st' 20 = None \<and> closed (Send (heap st' 20)) \<and>
      Run_step [10, 30] (Unregister 20) st' = Inr st'"
    using run st [unfolded s] concl [THEN conjunct1] concl [THEN conjunct2, THEN conjunct1]
      concl [THEN conjunct2, THEN conjunct2]
    by (intro exI [of _ st'] conjI)
  with e example_state_facts(2) example_not_closed(4-6) f show ?thesis
    by (intro conjI)
qed

lemma Run_step_Unregister_member:
  assumes "Clients st client = Some ok" and "\<not> closed (Send (heap st client))"
  shows "Run_step order (Unregister client) st =
     Inr ((set_Send client ((Send (heap st client))\<lparr>closed := True\<rparr>) st)
            \<lparr>Clients := (Clients st)(client := None),
             started := started st @ [GoHandleDeleteUser client]\<rparr>)"
  using assms by (simp add: chan_close_def)

text \<open>
  Claim C4. Unregistering a member with an open queue returns a state in which the session
  is out of the map, its queue is closed (content unchanged), no other client object has
  changed, and exactly one \<^verbatim>\<open>HandleDeleteUser\<close> goroutine has been started for it. That
  goroutine, when the message encodes, sends exactly one broadcast request: the
  \<^verbatim>\<open>user-removed\<close> message with the session's data. The queue is already closed when
  \<^verbatim>\<open>Run\<close> serves that request, which then appends the message to the queue of every
  remaining session whose queue is not full and leaves the closed queue alone.
\<close>

theorem unregister_member:
  assumes "Clients st client = Some ok"
    and "\<not> closed (Send (heap st client))"
    and "marshal \<lparr>Type = ''user-removed'', Data = Client.Data (heap st client)\<rparr> = Some jsonData"
  shows "\<exists>st1. Run_step order (Unregister client) st = Inr st1 \<and>
     Clients st1 = (Clients st)(client := None) \<and>
     Send (heap st1 client) = (Send (heap st client))\<lparr>closed := True\<rparr> \<and>
     (\<forall>c. c \<noteq> client \<longrightarrow> heap st1 c = heap st c) \<and>
     started st1 = started st @ [GoHandleDeleteUser client] \<and>
     HandleDeleteUser marshal client st1 = [Broadcast jsonData] \<and>
     (\<forall>order'. enumerates order' st1 \<and>
         (\<forall>c\<in>dom (Clients st1). \<not> closed (Send (heap st1 c))) \<longrightarrow>
         (\<exists>st2. Run_step order' (Broadcast jsonData) st1 = Inr st2 \<and>
            Send (heap st2 client) = Send (heap st1 client) \<and>
            (\<forall>c\<in>dom (Clients st1). \<not> chan_full (Send (heap st c)) \<longrightarrow>
               buf (Send (heap st2 c)) = buf (Send (heap st c)) @ [jsonData])))"
proof -
  let ?st1 = "(set_Send client ((Send (heap st client))\<lparr>closed := True\<rparr>) st)
            \<lparr>Clients := (Clients st)(client := None),
             started := started st @ [GoHandleDeleteUser client]\<rparr>"
  have run: "Run_step order (Unregister client) st = Inr ?st1"
    by (rule Run_step_Unregister_member [OF assms(1,2)])
  have cl: "Clients ?st1 = (Clients st)(client := None)"
    by simp
  have sd: "Send (heap ?st1 client) = (Send (heap st client))\<lparr>closed := True\<rparr>"
    by (simp add: set_Send_def)
  have oth: "\<forall>c. c \<noteq> client \<longrightarrow> heap ?st1 c = heap st c"
    by (simp add: set_Send_def)
  have stt: "started ?st1 = started st @ [GoHandleDeleteUser client]"
    by simp
  have "removedMessage (heap ?st1 client)
      = \<lparr>Type = ''user-removed'', Data = Client.Data (heap st client)\<rparr>"
    by (simp add: removedMessage_def set_Send_def)
  then have hd: "HandleDeleteUser marshal client ?st1 = [Broadcast jsonData]"
    using assms(3) by (simp add: HandleDeleteUser_def)
  have bc: "\<forall>order'. enumerates order' ?st1 \<and>
         (\<forall>c\<in>dom (Clients ?st1). \<not> closed (Send (heap ?st1 c))) \<longrightarrow>
         (\<exists>st2. Run_step order' (Broadcast jsonData) ?st1 = Inr st2 \<and>
            Send (heap st2 client) = Send (heap ?st1 client) \<and>
            (\<forall>c\<in>dom (Clients ?st1). \<not> chan_full (Send (heap st c)) \<longrightarrow>
               buf (Send (heap st2 c)) = buf (Send (heap st c)) @ [jsonData]))"
  proof (intro allI impI)
    fix order'
    assume pre: "enumerates order' ?st1 \<and>
         (\<forall>c\<in>dom (Clients ?st1). \<not> closed (Send (heap ?st1 c)))"
    let ?st2 = "after_broadcast order' jsonData ?st1"
    have en: "enumerates order' ?st1" and op: "\<forall>c\<in>dom (Clients ?st1). \<not> closed (Send (heap ?st1 c))"
      using pre by (rule conjunct1, rule conjunct2)
    have run2: "Run_step order' (Broadcast jsonData) ?st1 = Inr ?st2"
      by (rule Run_step_Broadcast_eq [OF en op])
    have mem: "set order' = dom (Clients ?st1)"
      using en by (simp add: enumerates_def)
    have notin: "client \<notin> set order'"
      unfolding mem by simp
    have keep: "Send (heap ?st2 client) = Send (heap ?st1 client)"
      using notin by (simp add: after_broadcast_simps)
    have deliver: "\<forall>c\<in>dom (Clients ?st1). \<not> chan_full (Send (heap st c)) \<longrightarrow>
               buf (Send (heap ?st2 c)) = buf (Send (heap st c)) @ [jsonData]"
    proof (intro ballI impI)
      fix c
      assume c: "c \<in> dom (Clients ?st1)" and nf: "\<not> chan_full (Send (heap st c))"
      have ne: "c \<noteq> client" using c by auto
      then have same: "heap ?st1 c = heap st c" by (simp add: set_Send_def)
      have "c \<in> set order'" using c mem by simp
      then have "heap ?st2 c = dispatch jsonData (heap ?st1 c)"
        by (simp only: after_broadcast_simps if_True)
      then show "buf (Send (heap ?st2 c)) = buf (Send (heap st c)) @ [jsonData]"
        using nf by (simp only: same dispatch_simps if_False) simp
    qed
    from run2 keep deliver
    show "\<exists>st2. Run_step order' (Broadcast jsonData) ?st1 = Inr st2 \<and>
            Send (heap st2 client) = Send (heap ?st1 client) \<and>
            (\<forall>c\<in>dom (Clients ?st1). \<not> chan_full (Send (heap st c)) \<longrightarrow>
               buf (Send (heap st2 c)) = buf (Send (heap st c)) @ [jsonData])"
      by (intro exI [of _ ?st2] conjI)
  qed
  from run cl sd oth stt hd bc show ?thesis
    by (intro exI [of _ ?st1] conjI)
qed


lemma example_marshal_removed:
  "example_marshal \<lparr>Type = ''user-removed'', Data = Client.Data (heap example_state 20)\<rparr>
     = Some ''user-removed 10.0.0.2:5002''"
  by (simp add: example_marshal_def example_encode_def example_heap_simps example_client_simps userData_def)

theorem unregister_member_witness:
  "Clients example_state 20 = Some True \<and>
   \<not> closed (Send (heap example_state 20)) \<and>
   example_marshal \<lparr>Type = ''user-removed'', Data = Client.Data (heap example_state 20)\<rparr>
     = Some ''user-removed 10.0.0.2:5002'' \<and>
   (\<exists>st1 st2. Run_step [10, 20, 30] (Unregister 20) example_state = Inr st1 \<and>
      dom (Clients st1) = {10, 30} \<and> closed (Send (heap st1 20)) \<and>
      started st1 = [GoHandleDeleteUser 20] \<and>
      HandleDeleteUser example_marshal 20 st1 = [Broadcast ''user-removed 10.0.0.2:5002''] \<and>
      enumerates [30, 10] st1 \<and>
      (\<forall>c\<in>dom (Clients st1). \<not> closed (Send (heap st1 c))) \<and>
      Run_step [30, 10] (Broadcast ''user-removed 10.0.0.2:5002'') st1 = Inr st2 \<and>
      buf (Send (heap st2 10)) = [''user-removed 10.0.0.2:5002''] \<and>
      buf (Send (heap st2 30)) = [''user-removed 10.0.0.2:5002''] \<and>
      buf (Send (heap st2 20)) = [] \<and> closed (Send (heap st2 20)))"
proof -
  let ?b = "''user-removed 10.0.0.2:5002''"
  have h1: "Clients example_state 20 = Some True"
    by (simp add: example_state_def)
  have h2: "\<not> closed (Send (heap example_state 20))"
    by (simp add: example_heap_simps example_client_simps)
  note h3 = example_marshal_removed
  from unregister_member [where marshal = example_marshal and order = "[10, 20, 30]", OF h1 h2 h3]
  obtain st1 where run: "Run_step [10, 20, 30] (Unregister 20) example_state = Inr st1"
    and cl: "Clients st1 = (Clients example_state)(20 := None)"
    and sd: "Send (heap st1 20) = (Send (heap example_state 20))\<lparr>closed := True\<rparr>"
    and oth: "\<forall>c. c \<noteq> 20 \<longrightarrow> heap st1 c = heap example_state c"
    and stt: "started st1 = started example_state @ [GoHandleDeleteUser 20]"
    and hd: "HandleDeleteUser example_marshal 20 st1 = [Broadcast ?b]"
    and bc: "\<forall>order'. enumerates order' st1 \<and>
         (\<forall>c\<in>dom (Clients st1). \<not> closed (Send (heap st1 c))) \<longrightarrow>
         (\<exists>st2. Run_step order' (Broadcast ?b) st1 = Inr st2 \<and>
            Send (heap st2 20) = Send (heap st1 20) \<and>
            (\<forall>c\<in>dom (Clients st1). \<not> chan_full (Send (heap example_state c)) \<longrightarrow>
               buf (Send (heap st2 c)) = buf (Send (heap example_state c)) @ [?b]))"
    by (elim exE conjE) (rule that, assumption+)
  have "{10, 20, 30} - {20} = {10, 30::nat}"
    by (simp add: insert_Diff_if)
  then have d: "dom (Clients st1) = {10, 30}"
    by (simp add: cl example_state_facts)
  have en: "enumerates [30, 10] st1"
    by (simp add: enumerates_def d insert_commute)
  have h10: "heap st1 10 = heap example_state 10" and h30: "heap st1 30 = heap example_state 30"
    using oth by simp_all
  have op: "\<forall>c\<in>dom (Clients st1). \<not> closed (Send (heap st1 c))"
    by (simp add: d h10 h30 example_heap_simps example_client_simps)
  have c20: "closed (Send (heap st1 20))" and b20: "buf (Send (heap st1 20)) = []"
    by (simp_all add: sd example_heap_simps example_client_simps)
  have st0: "started st1 = [GoHandleDeleteUser 20]"
    by (simp add: stt example_state_def)
  from mp [OF spec [OF bc, of "[30, 10]"] conjI [OF en op]]
  obtain st2 where run2: "Run_step [30, 10] (Broadcast ?b) st1 = Inr st2"
    and keep: "Send (heap st2 20) = Send (heap st1 20)"
    and dl: "\<forall>c\<in>dom (Clients st1). \<not> chan_full (Send (heap example_state c)) \<longrightarrow>
               buf (Send (heap st2 c)) = buf (Send (heap example_state c)) @ [?b]"
    by (elim exE conjE) (rule that, assumption+)
  have m10: "(10::nat) \<in> dom (Clients st1)" and m30: "(30::nat) \<in> dom (Clients st1)"
    by (simp_all add: d)
  have b10: "buf (Send (heap st2 10)) = [?b]"
    using bspec [OF dl m10] by (simp add: example_heap_simps example_client_simps chan_full_def)
  have b30: "buf (Send (heap st2 30)) = [?b]"
    using bspec [OF dl m30] by (simp add: example_heap_simps example_client_simps chan_full_def)
  have k1: "buf (Send (heap st2 20)) = []" and k2: "closed (Send (heap st2 20))"
    by (simp_all add: keep c20 b20)
  have "\<exists>st1 st2. Run_step [10, 20, 30] (Unregister 20) example_state = Inr st1 \<and>
      dom (Clients st1) = {10, 30} \<and> closed (Send (heap st1 20)) \<and>
      started st1 = [GoHandleDeleteUser 20] \<and>
      HandleDeleteUser example_marshal 20 st1 = [Broadcast ?b] \<and>
      enumerates [30, 10] st1 \<and>
      (\<forall>c\<in>dom (Clients st1). \<not> closed (Send (heap st1 c))) \<and>
      Run_step [30, 10] (Broadcast ?b) st1 = Inr st2 \<and>
      buf (Send (heap st2 10)) = [?b] \<and>
      buf (Send (heap st2 30)) = [?b] \<and>
      buf (Send (heap st2 20)) = [] \<and> closed (Send (heap st2 20))"
    using run d c20 st0 hd en op run2 b10 b30 k1 k2
    by (intro exI [of _ st1] exI [of _ st2] conjI)
  with h1 h2 h3 show ?thesis
    by (intro conjI)
qed

section \<open>Claims about relaying content\<close>

text \<open>
  Claim C2, as the code has it. The inbound pump of a session sends each frame it reads on
  the broadcast channel unchanged, and \<^verbatim>\<open>Run\<close> appends those very bytes to the queue of
  every registered session whose queue is open and not full. With three registered
  sessions \<open>a\<close>, \<open>b\<close> and \<open>c\<close>, a frame read by the pump of \<open>b\<close> therefore reaches
  \<open>a\<close> and \<open>c\<close> once each, byte for byte, and it reaches \<open>b\<close> as well: the registry
  does not leave the sender out.
\<close>

theorem content_relayed_to_all:
  assumes "dom (Clients st) = {a, b, c}"
    and "enumerates order st"
    and "\<forall>x\<in>{a, b, c}. \<not> closed (Send (heap st x)) \<and> \<not> chan_full (Send (heap st x))"
  shows "HandleClientRead b [Some message] = [Broadcast message] \<and>
     (\<exists>st'. Run_step order (Broadcast message) st = Inr st' \<and>
        dom (Clients st') = {a, b, c} \<and>
        (\<forall>x\<in>{a, b, c}. buf (Send (heap st' x)) = buf (Send (heap st x)) @ [message]))"
proof -
  let ?st' = "after_broadcast order message st"
  have pump: "HandleClientRead b [Some message] = [Broadcast message]"
    by simp
  have op: "\<forall>x\<in>dom (Clients st). \<not> closed (Send (heap st x))"
    unfolding assms(1) using assms(3) by blast
  have nf: "\<forall>x\<in>dom (Clients st). \<not> chan_full (Send (heap st x))"
    unfolding assms(1) using assms(3) by blast
  have run: "Run_step order (Broadcast message) st = Inr ?st'"
    by (rule Run_step_Broadcast_eq [OF assms(2) op])
  have mem: "set order = dom (Clients st)"
    using assms(2) by (simp add: enumerates_def)
  have "dom (Clients st) - {x. chan_full (Send (heap st x))} = dom (Clients st)"
    using nf by blast
  then have d: "dom (Clients ?st') = {a, b, c}"
    by (simp only: dom_after_broadcast [OF mem] assms(1))
  have dl: "\<forall>x\<in>{a, b, c}. buf (Send (heap ?st' x)) = buf (Send (heap st x)) @ [message]"
  proof
    fix x
    assume "x \<in> {a, b, c}"
    then have x: "x \<in> dom (Clients st)" by (simp only: assms(1))
    then have "x \<in> set order" and "\<not> chan_full (Send (heap st x))"
      using mem nf by simp_all
    then show "buf (Send (heap ?st' x)) = buf (Send (heap st x)) @ [message]"
      by (simp add: after_broadcast_simps dispatch_simps)
  qed
  from run d dl have "\<exists>st'. Run_step order (Broadcast message) st = Inr st' \<and>
        dom (Clients st') = {a, b, c} \<and>
        (\<forall>x\<in>{a, b, c}. buf (Send (heap st' x)) = buf (Send (heap st x)) @ [message])"
    by (intro exI [of _ ?st'] conjI)
  with pump show ?thesis by (intro conjI)
qed


theorem content_relayed_to_all_witness:
  "dom (Clients example_state) = {10, 20, 30} \<and>
   enumerates [30, 10, 20] example_state \<and>
   \<not> closed (Send (heap example_state 10)) \<and> \<not> closed (Send (heap example_state 20)) \<and>
   \<not> closed (Send (heap example_state 30)) \<and>
   \<not> chan_full (Send (heap example_state 10)) \<and> \<not> chan_full (Send (heap example_state 20)) \<and>
   \<not> chan_full (Send (heap example_state 30)) \<and>
   HandleClientRead 20 [Some example_content] = [Broadcast example_content] \<and>
   (\<exists>st'. Run_step [30, 10, 20] (Broadcast example_content) example_state = Inr st' \<and>
      buf (Send (heap st' 10)) = [example_content] \<and>
      buf (Send (heap st' 20)) = [example_content] \<and>
      buf (Send (heap st' 30)) = [example_content])"
proof -
  note d = example_state_facts(1) and e = example_enumerates(1)
  have q: "\<forall>x\<in>{10, 20, 30}. \<not> closed (Send (heap example_state x)) \<and>
      \<not> chan_full (Send (heap example_state x))"
    by (simp add: example_heap_simps example_client_simps chan_full_def)
  note t = content_relayed_to_all [OF d e q, where message = example_content]
  from t [THEN conjunct2]
  obtain st' where run: "Run_step [30, 10, 20] (Broadcast example_content) example_state = Inr st'"
    and dl: "\<forall>x\<in>{10, 20, 30}.
      buf (Send (heap st' x)) = buf (Send (heap example_state x)) @ [example_content]"
    by (elim exE conjE) (rule that, assumption+)
  have b10: "buf (Send (heap st' 10)) = [example_content]"
    and b20: "buf (Send (heap st' 20)) = [example_content]"
    and b30: "buf (Send (heap st' 30)) = [example_content]"
    using dl by (simp_all add: example_heap_simps example_client_simps)
  from run b10 b20 b30
  have "\<exists>st'. Run_step [30, 10, 20] (Broadcast example_content) example_state = Inr st' \<and>
      buf (Send (heap st' 10)) = [example_content] \<and>
      buf (Send (heap st' 20)) = [example_content] \<and>
      buf (Send (heap st' 30)) = [example_content]"
    by (intro exI [of _ st'] conjI)
  with d e example_not_closed(1-3) example_not_full(1-3) t [THEN conjunct1] show ?thesis
    by (intro conjI)
qed

text \<open>
  Claim C2 as stated fails: the sender is served like every other session. Sessions A, B
  and C are registered with empty queues; the pump of B forwards one \<^verbatim>\<open>content\<close>
  envelope; afterwards the queue of B holds that envelope.
\<close>

theorem sender_receives_own_broadcast:
  "Clients example_state 20 = Some True \<and>
   buf (Send (heap example_state 20)) = [] \<and>
   HandleClientRead 20 [Some example_content] = [Broadcast example_content] \<and>
   outbound 20 (Run_step [10, 20, 30] (Broadcast example_content) example_state)
     = Inr [example_content]"
proof -
  have e: "enumerates [10, 20, 30] example_state"
    by (simp add: enumerates_def example_state_facts)
  have run: "Run_step [10, 20, 30] (Broadcast example_content) example_state
      = Inr (after_broadcast [10, 20, 30] example_content example_state)"
    by (rule Run_step_Broadcast_eq [OF e example_open(1)])
  have "outbound 20 (Run_step [10, 20, 30] (Broadcast example_content) example_state)
     = Inr [example_content]"
    unfolding run
    by (simp add: outbound_def after_broadcast_simps dispatch_simps example_heap_simps
        example_client_simps chan_full_def)
  moreover have "Clients example_state 20 = Some True"
    by (simp add: example_state_def)
  moreover have "buf (Send (heap example_state 20)) = []"
    by (simp add: example_heap_simps example_client_simps)
  moreover have "HandleClientRead 20 [Some example_content] = [Broadcast example_content]"
    by simp
  ultimately show ?thesis by (intro conjI)
qed

section \<open>Claims about identity assignment\<close>

lemma length_randomNames: "length randomNames = 5"
  by (simp add: randomNames_def)

lemma distinct_randomNames: "distinct randomNames"
  by (simp add: randomNames_def)

lemma digit_value:
  assumes "k < 10"
  shows "of_char (''0123456789'' ! k) = (48 + k :: nat)"
proof -
  have "k = 0 \<or> k = 1 \<or> k = 2 \<or> k = 3 \<or> k = 4 \<or> k = 5 \<or> k = 6 \<or> k = 7 \<or> k = 8 \<or> k = 9"
    using assms by arith
  then show ?thesis
    by (elim disjE) simp_all
qed

lemma value_of_itoa:
  "foldl (\<lambda>a c. 10 * a + (of_char c - 48)) (0::nat) (itoa n) = n"
proof (induction n rule: itoa.induct)
  case (1 n)
  show ?case
  proof (cases "n < 10")
    case True
    then show ?thesis
      by (simp add: itoa.simps [of n] digit_value)
  next
    case False
    have d: "of_char (''0123456789'' ! (n mod 10)) = (48 + n mod 10 :: nat)"
      by (rule digit_value) simp
    have "foldl (\<lambda>a c. 10 * a + (of_char c - 48)) (0::nat) (itoa (n div 10)) = n div 10"
      using False by (rule "1.IH")
    then show ?thesis
      using False by (simp add: itoa.simps [of n] d)
  qed
qed

lemma itoa_eq_iff: "itoa n = itoa m \<longleftrightarrow> n = m"
proof
  assume "itoa n = itoa m"
  then have "foldl (\<lambda>a c. 10 * a + (of_char c - 48)) (0::nat) (itoa n)
      = foldl (\<lambda>a c. 10 * a + (of_char c - 48)) (0::nat) (itoa m)"
    by simp
  then show "n = m" by (simp only: value_of_itoa)
next
  assume "n = m"
  then show "itoa n = itoa m" by simp
qed

lemma hsl_eq_iff:
  "''hsl('' @ itoa h @ '', 70%, 60%)'' = ''hsl('' @ itoa h' @ '', 70%, 60%)'' \<longleftrightarrow> h = h'"
  by (simp add: itoa_eq_iff)

text \<open>
  Claim C8, as the code has it. Neither function takes a request, and neither is a function
  of its arguments alone: each reads the process-wide random source and advances it. For
  a source that returns numbers below the bound it is given, the name is the entry of the
  pool of five names at the index the source returns for the bound 5, and the color is
  \<^verbatim>\<open>hsl(h, 70%, 60%)\<close> for the number \<open>h\<close> below 360 that the source returns for the
  bound 360; the source is left in its next state. Two invocations, from the source states
  \<open>r\<close> and \<open>r'\<close>, yield the same name exactly when the source returns the same index
  in both, and the same color exactly when it returns the same hue in both: the five
  names are distinct, and different hues are written differently.
\<close>

theorem identity_from_random_source:
  assumes "\<forall>r n. 0 < n \<longrightarrow> fst (intn r n) < n"
  shows "GetRandomName intn r = Inr (randomNames ! fst (intn r 5), snd (intn r 5)) \<and>
     randomNames ! fst (intn r 5) \<in> set randomNames \<and>
     GetRandomColor intn r = (''hsl('' @ itoa (fst (intn r 360)) @ '', 70%, 60%)'', snd (intn r 360)) \<and>
     fst (intn r 360) < 360 \<and>
     (map_sum id fst (GetRandomName intn r) = map_sum id fst (GetRandomName intn r')
        \<longleftrightarrow> fst (intn r 5) = fst (intn r' 5)) \<and>
     (fst (GetRandomColor intn r) = fst (GetRandomColor intn r')
        \<longleftrightarrow> fst (intn r 360) = fst (intn r' 360))"
proof -
  have i: "fst (intn r 5) < 5" and i': "fst (intn r' 5) < 5" and h: "fst (intn r 360) < 360"
    using assms by simp_all
  have n: "GetRandomName intn r = Inr (randomNames ! fst (intn r 5), snd (intn r 5))"
    using i by (simp add: GetRandomName_def length_randomNames case_prod_beta)
  have n': "GetRandomName intn r' = Inr (randomNames ! fst (intn r' 5), snd (intn r' 5))"
    using i' by (simp add: GetRandomName_def length_randomNames case_prod_beta)
  have m: "randomNames ! fst (intn r 5) \<in> set randomNames"
    using i by (intro nth_mem) (simp add: length_randomNames)
  have c: "GetRandomColor intn r
      = (''hsl('' @ itoa (fst (intn r 360)) @ '', 70%, 60%)'', snd (intn r 360))"
    by (simp add: GetRandomColor_def case_prod_beta)
  have c': "GetRandomColor intn r'
      = (''hsl('' @ itoa (fst (intn r' 360)) @ '', 70%, 60%)'', snd (intn r' 360))"
    by (simp add: GetRandomColor_def case_prod_beta)
  have "randomNames ! fst (intn r 5) = randomNames ! fst (intn r' 5)
      \<longleftrightarrow> fst (intn r 5) = fst (intn r' 5)"
    using i i' by (intro nth_eq_iff_index_eq distinct_randomNames) (simp_all add: length_randomNames)
  then have same_name: "map_sum id fst (GetRandomName intn r) = map_sum id fst (GetRandomName intn r')
      \<longleftrightarrow> fst (intn r 5) = fst (intn r' 5)"
    by (simp add: n n')
  have same_color: "fst (GetRandomColor intn r) = fst (GetRandomColor intn r')
      \<longleftrightarrow> fst (intn r 360) = fst (intn r' 360)"
    unfolding c c' fst_conv by (rule hsl_eq_iff)
  from n m c h same_name same_color show ?thesis by (intro conjI)
qed

lemma counting_intn_bound: "\<forall>r n. 0 < n \<longrightarrow> fst (counting_intn r n) < n"
  by (simp add: counting_intn_def)

lemma itoa_digit: "n < 10 \<Longrightarrow> itoa n = [''0123456789'' ! n]"
  by (simp add: itoa.simps [of n])

lemma counting_intn_simps:
  "fst (counting_intn r n) = r mod n" "snd (counting_intn r n) = Suc r"
  by (simp_all add: counting_intn_def)

lemma itoa_examples:
  "itoa 7 = ''7''" "itoa 123 = ''123''" "itoa 359 = ''359''"
  by (simp_all add: itoa.simps [of 123] itoa.simps [of 12] itoa.simps [of 359]
      itoa.simps [of 35] itoa_digit)

theorem identity_from_random_source_witness:
  "GetRandomName counting_intn 0 = Inr ([CHR 0xF0, CHR 0x9F, CHR 0xA6, CHR 0x8A] @ '' Fox'', 1) \<and>
   GetRandomName counting_intn 1 = Inr ([CHR 0xF0, CHR 0x9F, CHR 0x90, CHR 0xBC] @ '' Panda'', 2) \<and>
   GetRandomName counting_intn 7 = Inr ([CHR 0xF0, CHR 0x9F, CHR 0x90, CHR 0xA7] @ '' Penguin'', 8) \<and>
   GetRandomName counting_intn 3 = Inr ([CHR 0xF0, CHR 0x9F, CHR 0xA6, CHR 0x81] @ '' Lion'', 4) \<and>
   GetRandomName counting_intn 4 = Inr ([CHR 0xF0, CHR 0x9F, CHR 0x90, CHR 0xB8] @ '' Frog'', 5) \<and>
   GetRandomColor counting_intn 7 = (''hsl(7, 70%, 60%)'', 8) \<and>
   GetRandomColor counting_intn 123 = (''hsl(123, 70%, 60%)'', 124) \<and>
   GetRandomColor counting_intn 359 = (''hsl(359, 70%, 60%)'', 360) \<and>
   map_sum id fst (GetRandomName counting_intn 2) = map_sum id fst (GetRandomName counting_intn 7) \<and>
   map_sum id fst (GetRandomName counting_intn 2) \<noteq> map_sum id fst (GetRandomName counting_intn 3) \<and>
   fst (GetRandomColor counting_intn 7) = fst (GetRandomColor counting_intn 367) \<and>
   fst (GetRandomColor counting_intn 7) \<noteq> fst (GetRandomColor counting_intn 8)"
proof -
  note t = identity_from_random_source [OF counting_intn_bound]
  have names: "randomNames ! 0 = [CHR 0xF0, CHR 0x9F, CHR 0xA6, CHR 0x8A] @ '' Fox''"
    "randomNames ! 1 = [CHR 0xF0, CHR 0x9F, CHR 0x90, CHR 0xBC] @ '' Panda''"
    "randomNames ! Suc 0 = [CHR 0xF0, CHR 0x9F, CHR 0x90, CHR 0xBC] @ '' Panda''"
    "randomNames ! 2 = [CHR 0xF0, CHR 0x9F, CHR 0x90, CHR 0xA7] @ '' Penguin''"
    "randomNames ! 3 = [CHR 0xF0, CHR 0x9F, CHR 0xA6, CHR 0x81] @ '' Lion''"
    "randomNames ! 4 = [CHR 0xF0, CHR 0x9F, CHR 0x90, CHR 0xB8] @ '' Frog''"
    by (simp_all add: randomNames_def)
  have n0: "GetRandomName counting_intn 0 = Inr ([CHR 0xF0, CHR 0x9F, CHR 0xA6, CHR 0x8A] @ '' Fox'', 1)"
    using t [of 0 0, THEN conjunct1] by (simp add: counting_intn_simps names)
  have n1: "GetRandomName counting_intn 1 = Inr ([CHR 0xF0, CHR 0x9F, CHR 0x90, CHR 0xBC] @ '' Panda'', 2)"
    using t [of 1 0, THEN conjunct1] by (simp add: counting_intn_simps names)
  have n2: "GetRandomName counting_intn 7 = Inr ([CHR 0xF0, CHR 0x9F, CHR 0x90, CHR 0xA7] @ '' Penguin'', 8)"
    using t [of 7 0, THEN conjunct1] by (simp add: counting_intn_simps names)
  have n3: "GetRandomName counting_intn 3 = Inr ([CHR 0xF0, CHR 0x9F, CHR 0xA6, CHR 0x81] @ '' Lion'', 4)"
    using t [of 3 0, THEN conjunct1] by (simp add: counting_intn_simps names)
  have n4: "GetRandomName counting_intn 4 = Inr ([CHR 0xF0, CHR 0x9F, CHR 0x90, CHR 0xB8] @ '' Frog'', 5)"
    using t [of 4 0, THEN conjunct1] by (simp add: counting_intn_simps names)
  have c7: "GetRandomColor counting_intn 7 = (''hsl(7, 70%, 60%)'', 8)"
    using t [of 7 0, THEN conjunct2, THEN conjunct2, THEN conjunct1]
    by (simp add: counting_intn_simps itoa_examples)
  have c123: "GetRandomColor counting_intn 123 = (''hsl(123, 70%, 60%)'', 124)"
    using t [of 123 0, THEN conjunct2, THEN conjunct2, THEN conjunct1]
    by (simp add: counting_intn_simps itoa_examples)
  have c359: "GetRandomColor counting_intn 359 = (''hsl(359, 70%, 60%)'', 360)"
    using t [of 359 0, THEN conjunct2, THEN conjunct2, THEN conjunct1]
    by (simp add: counting_intn_simps itoa_examples)
  have sn: "map_sum id fst (GetRandomName counting_intn 2)
      = map_sum id fst (GetRandomName counting_intn 7)"
    using t [of 2 7, THEN conjunct2, THEN conjunct2, THEN conjunct2, THEN conjunct2, THEN conjunct1]
    by (simp add: counting_intn_simps)
  have dn: "map_sum id fst (GetRandomName counting_intn 2)
      \<noteq> map_sum id fst (GetRandomName counting_intn 3)"
    using t [of 2 3, THEN conjunct2, THEN conjunct2, THEN conjunct2, THEN conjunct2, THEN conjunct1]
    by (simp add: counting_intn_simps)
  have sc: "fst (GetRandomColor counting_intn 7) = fst (GetRandomColor counting_intn 367)"
    using t [of 7 367, THEN conjunct2, THEN conjunct2, THEN conjunct2, THEN conjunct2, THEN conjunct2]
    by (simp add: counting_intn_simps)
  have dc: "fst (GetRandomColor counting_intn 7) \<noteq> fst (GetRandomColor counting_intn 8)"
    using t [of 7 8, THEN conjunct2, THEN conjunct2, THEN conjunct2, THEN conjunct2, THEN conjunct2]
    by (simp add: counting_intn_simps)
  from n0 n1 n2 n3 n4 c7 c123 c359 sn dn sc dc show ?thesis
    by (intro conjI)
qed

text \<open>
  Claim C8 as stated fails: a second invocation need not repeat the first. With a source
  that counts, the first invocation returns the first name of the pool and leaves the
  source in state 1, and the invocation that follows returns the second name; the colors
  of two successive invocations differ in the same way.
\<close>

theorem identity_differs_between_invocations:
  "GetRandomName counting_intn 0 = Inr (randomNames ! 0, 1) \<and>
   GetRandomName counting_intn 1 = Inr (randomNames ! 1, 2) \<and>
   randomNames ! 0 \<noteq> randomNames ! 1 \<and>
   GetRandomColor counting_intn 2 = (''hsl(2, 70%, 60%)'', 3) \<and>
   GetRandomColor counting_intn 3 = (''hsl(3, 70%, 60%)'', 4)"
proof -
  have "GetRandomName counting_intn 0 = Inr (randomNames ! 0, 1)"
    by (simp add: GetRandomName_def length_randomNames counting_intn_def)
  moreover have "GetRandomName counting_intn 1 = Inr (randomNames ! 1, 2)"
    by (simp add: GetRandomName_def length_randomNames counting_intn_def)
  moreover have "randomNames ! 0 \<noteq> randomNames ! 1"
    by (simp add: randomNames_def)
  moreover have "GetRandomColor counting_intn 2 = (''hsl(2, 70%, 60%)'', 3)"
    by (simp add: GetRandomColor_def counting_intn_def itoa_digit)
  moreover have "GetRandomColor counting_intn 3 = (''hsl(3, 70%, 60%)'', 4)"
    by (simp add: GetRandomColor_def counting_intn_def itoa_digit)
  ultimately show ?thesis by (intro conjI)
qed

section \<open>No operation changes a client's identity\<close>











section \<open>Sequences of register and unregister requests: lemmas\<close>

lemma set_registered_of: "set (registered_of reqs) = {c. Register c \<in> set reqs}"
  by (induction reqs rule: registered_of.induct) auto

lemma unregistered_of_snoc:
  "unregistered_of (gs @ [GoHandleDeleteUser c]) = unregistered_of gs @ [c]"
  by (induction gs rule: unregistered_of.induct) simp_all

lemma no_reregister_tail: "no_reregister (req # rest) \<Longrightarrow> no_reregister rest"
  by (cases req) simp_all

lemma Run_membership:
  assumes "\<forall>ev\<in>set evs. is_membership (snd ev)"
    and "no_reregister (map snd evs)"
    and "\<forall>c\<in>set (registered_of (map snd evs)). c \<notin> set (unregistered_of (started st))"
    and "\<forall>c\<in>dom (Clients st) \<union> set (registered_of (map snd evs)). \<not> closed (Send (heap st c))"
    and "dom (Clients st) \<inter> set (unregistered_of (started st)) = {}"
  shows "\<exists>st' N. Run evs st = Inr st' \<and>
     set (unregistered_of (started st')) = set (unregistered_of (started st)) \<union> N \<and>
     N \<subseteq> dom (Clients st) \<union> set (registered_of (map snd evs)) \<and>
     dom (Clients st') = (dom (Clients st) \<union> set (registered_of (map snd evs))) - N"
  using assms
proof (induction evs arbitrary: st)
  case Nil
  show ?case
    by (intro exI [of _ st] exI [of _ "{}"]) simp
next
  case (Cons ev rest)
  obtain order req where ev: "ev = (order, req)" by (cases ev)
  let ?R = "set (registered_of (map snd rest))"
  let ?U = "set (unregistered_of (started st))"
  have mem_rest: "\<forall>ev\<in>set rest. is_membership (snd ev)"
    using Cons.prems(1) by simp
  have nr_rest: "no_reregister (map snd rest)"
    using Cons.prems(2) ev by (auto dest: no_reregister_tail)
  show ?case
  proof (cases req)
    case (Register c)
    let ?st1 = "st\<lparr>Clients := (Clients st)(c \<mapsto> True)\<rparr>"
    have R: "set (registered_of (map snd (ev # rest))) = insert c ?R"
      using ev Register by simp
    have a3: "\<forall>x\<in>?R. x \<notin> set (unregistered_of (started ?st1))"
      using Cons.prems(3) R by simp
    have a4: "\<forall>x\<in>dom (Clients ?st1) \<union> ?R. \<not> closed (Send (heap ?st1 x))"
      using Cons.prems(4) R by auto
    have "c \<notin> ?U" using Cons.prems(3) R by simp
    then have a5: "dom (Clients ?st1) \<inter> set (unregistered_of (started ?st1)) = {}"
      using Cons.prems(5) by auto
    from Cons.IH [OF mem_rest nr_rest a3 a4 a5]
    obtain st' N where run: "Run rest ?st1 = Inr st'"
      and u: "set (unregistered_of (started st')) = set (unregistered_of (started ?st1)) \<union> N"
      and n: "N \<subseteq> dom (Clients ?st1) \<union> ?R"
      and d: "dom (Clients st') = (dom (Clients ?st1) \<union> ?R) - N"
      by blast
    have run': "Run (ev # rest) st = Inr st'"
      using run ev Register by simp
    have u': "set (unregistered_of (started st')) = ?U \<union> N"
      using u by simp
    have n': "N \<subseteq> dom (Clients st) \<union> set (registered_of (map snd (ev # rest)))"
      using n R by auto
    have d': "dom (Clients st') = (dom (Clients st) \<union> set (registered_of (map snd (ev # rest)))) - N"
      using d R by auto
    from run' u' n' d' show ?thesis by blast
  next
    case (Unregister c)
    have R: "set (registered_of (map snd (ev # rest))) = ?R"
      using ev Unregister by simp
    show ?thesis
    proof (cases "Clients st c")
      case None
      have step: "Run (ev # rest) st = Run rest st"
        using ev Unregister None by simp
      from Cons.IH [OF mem_rest nr_rest, of st] Cons.prems(3,4,5) R
      obtain st' N where "Run rest st = Inr st'"
        and "set (unregistered_of (started st')) = ?U \<union> N"
        and "N \<subseteq> dom (Clients st) \<union> ?R"
        and "dom (Clients st') = (dom (Clients st) \<union> ?R) - N"
        by auto
      then show ?thesis
        unfolding step R by blast
    next
      case (Some ok)
      then have cin: "c \<in> dom (Clients st)" by auto
      then have op: "\<not> closed (Send (heap st c))"
        using Cons.prems(4) by simp
      let ?st1 = "(set_Send c ((Send (heap st c))\<lparr>closed := True\<rparr>) st)
            \<lparr>Clients := (Clients st)(c := None),
             started := started st @ [GoHandleDeleteUser c]\<rparr>"
      have step: "Run (ev # rest) st = Run rest ?st1"
        using ev Unregister Run_step_Unregister_member [OF Some op] by simp
      have U1: "set (unregistered_of (started ?st1)) = insert c ?U"
        by (simp add: unregistered_of_snoc)
      have D1: "dom (Clients ?st1) = dom (Clients st) - {c}"
        by simp
      have "Register c \<notin> set (map snd rest)"
        using Cons.prems(2) ev Unregister by simp
      then have cR: "c \<notin> ?R"
        by (simp add: set_registered_of)
      have a3: "\<forall>x\<in>?R. x \<notin> set (unregistered_of (started ?st1))"
        unfolding U1 using Cons.prems(3) R cR by auto
      have same: "\<And>x. x \<noteq> c \<Longrightarrow> heap ?st1 x = heap st x"
        by (simp add: set_Send_def)
      have a4: "\<forall>x\<in>dom (Clients ?st1) \<union> ?R. \<not> closed (Send (heap ?st1 x))"
      proof
        fix x
        assume x: "x \<in> dom (Clients ?st1) \<union> ?R"
        then have "x \<noteq> c" using cR unfolding D1 by auto
        moreover have "\<not> closed (Send (heap st x))"
          using x Cons.prems(4) R unfolding D1 by auto
        ultimately show "\<not> closed (Send (heap ?st1 x))"
          by (simp add: set_Send_def)
      qed
      have a5: "dom (Clients ?st1) \<inter> set (unregistered_of (started ?st1)) = {}"
        unfolding U1 D1 using Cons.prems(5) by auto
      from Cons.IH [OF mem_rest nr_rest a3 a4 a5]
      obtain st' N where run: "Run rest ?st1 = Inr st'"
        and u: "set (unregistered_of (started st')) = set (unregistered_of (started ?st1)) \<union> N"
        and n: "N \<subseteq> dom (Clients ?st1) \<union> ?R"
        and d: "dom (Clients st') = (dom (Clients ?st1) \<union> ?R) - N"
        by blast
      have run': "Run (ev # rest) st = Inr st'"
        using run step by simp
      have u': "set (unregistered_of (started st')) = ?U \<union> insert c N"
        using u unfolding U1 by auto
      have n': "insert c N \<subseteq> dom (Clients st) \<union> set (registered_of (map snd (ev # rest)))"
        using n cin unfolding D1 R by auto
      have d': "dom (Clients st')
          = (dom (Clients st) \<union> set (registered_of (map snd (ev # rest)))) - insert c N"
        using d cR unfolding D1 R by auto
      from run' u' n' d' show ?thesis by blast
    qed
  next
    case (Broadcast message)
    then show ?thesis using Cons.prems(1) ev by simp
  qed
qed


section \<open>Claims about the size of the registry\<close>

text \<open>
  Claim C6, as the code has it. \<^verbatim>\<open>Run\<close> starts from the empty registry and serves a
  finite sequence of register and unregister requests in which no session is registered
  again after a request to unregister it; the sessions registered have open queues. Then
  the run does not fail, the sessions unregistered with success are among those
  registered, the registry holds exactly the registered sessions that were not
  unregistered, and its size is the number of distinct sessions registered minus the
  number of distinct sessions unregistered with success. Sequences in which each
  unregistered session was registered before are a special case.
\<close>

theorem registry_size_after_run:
  assumes "\<forall>ev\<in>set evs. is_membership (snd ev)"
    and "no_reregister (map snd evs)"
    and "\<forall>c\<in>set (registered_of (map snd evs)). \<not> closed (Send (h c))"
  shows "\<exists>st'. Run evs (NewWebSocketManager h) = Inr st' \<and>
     set (unregistered_of (started st')) \<subseteq> set (registered_of (map snd evs)) \<and>
     dom (Clients st') =
       set (registered_of (map snd evs)) - set (unregistered_of (started st')) \<and>
     card (dom (Clients st')) =
       card (set (registered_of (map snd evs))) - card (set (unregistered_of (started st')))"
proof -
  let ?st0 = "NewWebSocketManager h"
  let ?R = "set (registered_of (map snd evs))"
  have a3: "\<forall>c\<in>?R. c \<notin> set (unregistered_of (started ?st0))"
    by (simp add: NewWebSocketManager_def)
  have a4: "\<forall>c\<in>dom (Clients ?st0) \<union> ?R. \<not> closed (Send (heap ?st0 c))"
    using assms(3) by (simp add: NewWebSocketManager_def)
  have a5: "dom (Clients ?st0) \<inter> set (unregistered_of (started ?st0)) = {}"
    by (simp add: NewWebSocketManager_def)
  from Run_membership [OF assms(1,2) a3 a4 a5]
  obtain st' N where run: "Run evs ?st0 = Inr st'"
    and u: "set (unregistered_of (started st')) = set (unregistered_of (started ?st0)) \<union> N"
    and n: "N \<subseteq> dom (Clients ?st0) \<union> ?R"
    and d: "dom (Clients st') = (dom (Clients ?st0) \<union> ?R) - N"
    by blast
  have u': "set (unregistered_of (started st')) = N"
    using u by (simp add: NewWebSocketManager_def)
  have sub: "set (unregistered_of (started st')) \<subseteq> ?R"
    using n u' by (simp add: NewWebSocketManager_def)
  have d': "dom (Clients st') = ?R - set (unregistered_of (started st'))"
    using d u' by (simp add: NewWebSocketManager_def)
  have "card (?R - set (unregistered_of (started st')))
      = card ?R - card (set (unregistered_of (started st')))"
    by (rule card_Diff_subset [OF _ sub]) simp
  then have c: "card (dom (Clients st')) = card ?R - card (set (unregistered_of (started st')))"
    by (simp only: d')
  from run sub d' c show ?thesis
    by (intro exI [of _ st'] conjI)
qed

lemma example_run:
  "\<exists>st'. Run [([], Register 10), ([10], Register 20), ([10, 20], Register 10),
            ([10, 20], Unregister 20), ([10], Unregister 20), ([10], Unregister 50)]
          (NewWebSocketManager example_heap) = Inr st' \<and>
        unregistered_of (started st') = [20] \<and> dom (Clients st') = {10}"
  by (simp add: NewWebSocketManager_def example_heap_def example_client_simps chan_close_def
      set_Send_def)

theorem registry_size_after_run_witness:
  "\<exists>st'. Run [([], Register 10), ([10], Register 20), ([10, 20], Register 10),
            ([10, 20], Unregister 20), ([10], Unregister 20), ([10], Unregister 50)]
          (NewWebSocketManager example_heap) = Inr st' \<and>
        registered_of [Register 10, Register 20, Register 10,
                       Unregister 20, Unregister 20, Unregister 50] = [10, 20, 10] \<and>
        unregistered_of (started st') = [20] \<and> dom (Clients st') = {10} \<and>
        card (dom (Clients st')) = card {10, 20 :: nat} - card {20 :: nat}"
proof -
  let ?evs = "[([], Register 10), ([10], Register 20), ([10, 20], Register 10),
            ([10, 20], Unregister 20), ([10], Unregister 20), ([10], Unregister 50)]
            :: (cref list \<times> request) list"
  have h1: "\<forall>ev\<in>set ?evs. is_membership (snd ev)"
    by simp
  have h2: "no_reregister (map snd ?evs)"
    by simp
  have r: "registered_of (map snd ?evs) = [10, 20, 10]"
    by simp
  have h3: "\<forall>c\<in>set (registered_of (map snd ?evs)). \<not> closed (Send (example_heap c))"
    unfolding r by (simp add: example_heap_def example_client_simps)
  from registry_size_after_run [OF h1 h2 h3]
  obtain st' where run: "Run ?evs (NewWebSocketManager example_heap) = Inr st'"
    and c: "card (dom (Clients st')) =
       card (set (registered_of (map snd ?evs))) - card (set (unregistered_of (started st')))"
    by (elim exE conjE) (rule that, assumption+)
  from example_run run have u: "unregistered_of (started st') = [20]"
    and d: "dom (Clients st') = {10}"
    by auto
  have "card (set [10, 20, 10 :: nat]) = card {10, 20 :: nat}"
    by (simp add: card_insert_if)
  then have c': "card (dom (Clients st')) = card {10, 20 :: nat} - card {20 :: nat}"
    using c unfolding u r by simp
  have r': "registered_of [Register 10, Register 20, Register 10,
                       Unregister 20, Unregister 20, Unregister 50] = [10, 20, 10]"
    by simp
  from run r' u d c' show ?thesis
    by (intro exI [of _ st'] conjI)
qed

text \<open>
  Claim C6 as stated fails when a session is registered again after it was unregistered.
  Session 10 is registered, unregistered, and registered again: each unregistered session
  was registered before, one distinct session was registered and one distinct session was
  unregistered with success, yet the registry holds one session, not none.
\<close>

theorem registry_size_reregistered:
  "previously_registered [] [Register 10, Unregister 10, Register 10] \<and>
   registered_of [Register 10, Unregister 10, Register 10] = [10, 10] \<and>
   successfully_unregistered
     (Run [([], Register 10), ([10], Unregister 10), ([], Register 10)]
        (NewWebSocketManager example_heap)) = Inr [10] \<and>
   registry_size
     (Run [([], Register 10), ([10], Unregister 10), ([], Register 10)]
        (NewWebSocketManager example_heap)) = Inr 1 \<and>
   card (set [10, 10 :: nat]) - card (set [10 :: nat]) = 0"
proof -
  have "previously_registered [] [Register 10, Unregister 10, Register 10]"
    by simp
  moreover have "registered_of [Register 10, Unregister 10, Register 10] = [10, 10]"
    by simp
  moreover have "successfully_unregistered
     (Run [([], Register 10), ([10], Unregister 10), ([], Register 10)]
        (NewWebSocketManager example_heap)) = Inr [10]"
    by (simp add: successfully_unregistered_def NewWebSocketManager_def example_heap_def
        example_client_simps chan_close_def set_Send_def)
  moreover have "registry_size
     (Run [([], Register 10), ([10], Unregister 10), ([], Register 10)]
        (NewWebSocketManager example_heap)) = Inr 1"
    by (simp add: registry_size_def NewWebSocketManager_def example_heap_def
        example_client_simps chan_close_def set_Send_def)
  moreover have "card (set [10, 10 :: nat]) - card (set [10 :: nat]) = 0"
    by simp
  ultimately show ?thesis by (intro conjI)
qed

section \<open>Lemmas about admission\<close>

lemma push_simps:
  "Clients (push client bs st) = Clients st"
  "started (push client bs st) = started st"
  "ID (heap (push client bs st) x) = ID (heap st x)"
  "Client.Data (heap (push client bs st) x) = Client.Data (heap st x)"
  "x \<noteq> client \<Longrightarrow> heap (push client bs st) x = heap st x"
  "Send (heap (push client bs st) client)
     = (Send (heap st client))\<lparr>buf := buf (Send (heap st client)) @ bs\<rparr>"
  by (simp_all add: push_def set_Send_def)

lemma push_Nil: "push client [] st = st"
  by (simp add: push_def set_Send_def)

lemma push_push: "push client cs (push client bs st) = push client (bs @ cs) st"
  by (intro state.equality) (simp_all add: push_def set_Send_def)

lemma existingUserMsg_push:
  "existingUserMsg (heap (push client bs st) x) = existingUserMsg (heap st x)"
  by (simp add: existingUserMsg_def push_simps)

lemma peer_messages_push:
  "peer_messages marshal client order (push client bs st) = peer_messages marshal client order st"
  by (simp add: peer_messages_def push_simps existingUserMsg_push)

lemma peer_messages_Nil: "peer_messages marshal client [] st = []"
  by (simp add: peer_messages_def map_filter_simps)

lemma peer_messages_Cons:
  "peer_messages marshal client (e # rest) st =
     (if ID (heap st e) = ID (heap st client) then peer_messages marshal client rest st
      else (case marshal (existingUserMsg (heap st e)) of
              None \<Rightarrow> peer_messages marshal client rest st
            | Some b \<Rightarrow> b # peer_messages marshal client rest st))"
  by (simp add: peer_messages_def map_filter_simps split: option.splits)

lemma chan_send_room:
  assumes "\<not> closed ch" and "length (buf ch) < cap ch"
  shows "chan_send b ch = Inr (ch\<lparr>buf := buf ch @ [b]\<rparr>)"
  using assms by (simp add: chan_send_def chan_full_def)

lemma send_existing_eq:
  assumes "\<not> closed (Send (heap st client))"
    and "length (buf (Send (heap st client))) + length (peer_messages marshal client order st)
           \<le> cap (Send (heap st client))"
  shows "send_existing marshal client order st
     = Inr (push client (peer_messages marshal client order st) st)"
  using assms
proof (induction order arbitrary: st)
  case Nil
  show ?case by (simp add: peer_messages_Nil push_Nil)
next
  case (Cons e rest)
  show ?case
  proof (cases "ID (heap st e) = ID (heap st client)")
    case True
    then have pm: "peer_messages marshal client (e # rest) st = peer_messages marshal client rest st"
      by (simp add: peer_messages_Cons)
    have "send_existing marshal client rest st
        = Inr (push client (peer_messages marshal client rest st) st)"
      using Cons.prems unfolding pm by (rule Cons.IH)
    then show ?thesis using True by (simp add: pm)
  next
    case False
    show ?thesis
    proof (cases "marshal (existingUserMsg (heap st e))")
      case None
      then have pm: "peer_messages marshal client (e # rest) st
          = peer_messages marshal client rest st"
        using False by (simp add: peer_messages_Cons)
      have "send_existing marshal client rest st
          = Inr (push client (peer_messages marshal client rest st) st)"
        using Cons.prems unfolding pm by (rule Cons.IH)
      then show ?thesis using False None by (simp add: pm)
    next
      case (Some b)
      then have pm: "peer_messages marshal client (e # rest) st
          = b # peer_messages marshal client rest st"
        using False by (simp add: peer_messages_Cons)
      let ?st1 = "push client [b] st"
      have room: "length (buf (Send (heap st client))) < cap (Send (heap st client))"
        using Cons.prems(2) unfolding pm by simp
      have snd: "chan_send b (Send (heap st client))
          = Inr ((Send (heap st client))\<lparr>buf := buf (Send (heap st client)) @ [b]\<rparr>)"
        by (rule chan_send_room [OF Cons.prems(1) room])
      have st1: "set_Send client ((Send (heap st client))\<lparr>buf := buf (Send (heap st client)) @ [b]\<rparr>) st
          = ?st1"
        by (simp add: push_def)
      have step: "send_existing marshal client (e # rest) st
          = send_existing marshal client rest ?st1"
        using False Some snd st1 by simp
      have o1: "\<not> closed (Send (heap ?st1 client))"
        using Cons.prems(1) by (simp add: push_simps)
      have r1: "length (buf (Send (heap ?st1 client)))
          + length (peer_messages marshal client rest ?st1) \<le> cap (Send (heap ?st1 client))"
        using Cons.prems(2) unfolding pm by (simp add: push_simps peer_messages_push)
      have "send_existing marshal client rest ?st1
          = Inr (push client (peer_messages marshal client rest ?st1) ?st1)"
        by (rule Cons.IH [OF o1 r1])
      then show ?thesis
        unfolding step pm by (simp add: peer_messages_push push_push)
    qed
  qed
qed

lemma HandleUserData_self_fails:
  assumes "marshal (selfMessage (heap st client)) = None"
  shows "HandleUserData marshal order client st = Inr (st, [])"
  using assms by (simp add: HandleUserData_def)

lemma HandleUserData_eq:
  assumes "marshal (selfMessage (heap st client)) = Some jsonData"
    and "\<not> closed (Send (heap st client))"
    and "length (buf (Send (heap st client))) + 1
           + length (peer_messages marshal client order st) \<le> cap (Send (heap st client))"
  shows "HandleUserData marshal order client st =
     Inr (push client (jsonData # peer_messages marshal client order st) st,
          (case marshal (newUserMsg (heap st client)) of
             None \<Rightarrow> []
           | Some newUserData \<Rightarrow> [Broadcast newUserData]))"
proof -
  let ?st1 = "push client [jsonData] st"
  let ?pm = "peer_messages marshal client order st"
  have room: "length (buf (Send (heap st client))) < cap (Send (heap st client))"
    using assms(3) by simp
  have snd: "chan_send jsonData (Send (heap st client))
      = Inr ((Send (heap st client))\<lparr>buf := buf (Send (heap st client)) @ [jsonData]\<rparr>)"
    by (rule chan_send_room [OF assms(2) room])
  have st1: "set_Send client
      ((Send (heap st client))\<lparr>buf := buf (Send (heap st client)) @ [jsonData]\<rparr>) st = ?st1"
    by (simp add: push_def)
  have o1: "\<not> closed (Send (heap ?st1 client))"
    using assms(2) by (simp add: push_simps)
  have r1: "length (buf (Send (heap ?st1 client)))
      + length (peer_messages marshal client order ?st1) \<le> cap (Send (heap ?st1 client))"
    using assms(3) by (simp add: push_simps peer_messages_push)
  have loop: "send_existing marshal client order ?st1 = Inr (push client ?pm ?st1)"
    using send_existing_eq [OF o1 r1] by (simp add: peer_messages_push)
  have fin: "push client ?pm ?st1 = push client (jsonData # ?pm) st"
    by (simp add: push_push)
  have new: "newUserMsg (heap (push client (jsonData # ?pm) st) client) = newUserMsg (heap st client)"
    by (simp add: newUserMsg_def push_simps)
  show ?thesis
    by (simp add: HandleUserData_def assms(1) snd st1 loop fin new split: option.splits)
qed


section \<open>Claims about encoding failures\<close>


lemma example_encode_simps:
  "example_encode \<lparr>Type = ty, Data = userData addr name color\<rparr> = ty @ '' '' @ addr"
  by (simp add: example_encode_def userData_def)

lemma example_messages:
  "selfMessage (example_client addr q)
     = \<lparr>Type = ''user-data'', Data = userData addr ''Fox'' ''hsl(7, 70%, 60%)''\<rparr>"
  "existingUserMsg (example_client addr q)
     = \<lparr>Type = ''user-added'', Data = userData addr ''Fox'' ''hsl(7, 70%, 60%)''\<rparr>"
  "newUserMsg (example_client addr q)
     = \<lparr>Type = ''user-added'', Data = userData addr ''Fox'' ''hsl(7, 70%, 60%)''\<rparr>"
  "removedMessage (example_client addr q)
     = \<lparr>Type = ''user-removed'', Data = userData addr ''Fox'' ''hsl(7, 70%, 60%)''\<rparr>"
  by (simp_all add: selfMessage_def existingUserMsg_def newUserMsg_def removedMessage_def
      example_client_simps)





section \<open>Claims about the admission sequence\<close>

lemma map_filter_Some: "List.map_filter (\<lambda>e. Some (f e)) xs = map f xs"
  by (induction xs) (simp_all add: map_filter_simps)

lemma peer_messages_total:
  "peer_messages (\<lambda>m. Some (enc m)) s order st =
     map (\<lambda>p. enc (existingUserMsg (heap st p)))
       (filter (\<lambda>p. ID (heap st p) \<noteq> ID (heap st s)) order)"
  by (simp add: peer_messages_def map_filter_Some)

lemma length_peers:
  assumes "s \<in> set order"
  shows "length (filter (\<lambda>p. ID (heap st p) \<noteq> ID (heap st s)) order) < length order"
  by (rule length_filter_less [OF assms]) simp

lemma length_others:
  assumes "distinct order" and "s \<in> set order"
  shows "length (filter (\<lambda>p. p \<noteq> s) order) = card (set order) - 1"
proof -
  have "distinct (filter (\<lambda>p. p \<noteq> s) order)"
    using assms(1) by simp
  then have "length (filter (\<lambda>p. p \<noteq> s) order) = card (set (filter (\<lambda>p. p \<noteq> s) order))"
    by (rule distinct_card [symmetric])
  also have "set (filter (\<lambda>p. p \<noteq> s) order) = set order - {s}"
    by auto
  also have "card (set order - {s}) = card (set order) - 1"
    using assms(2) by simp
  finally show ?thesis .
qed

text \<open>
  Claim C3, as the code has it. Session \<open>s\<close> is registered next to its peers, all queues
  are open, no peer's queue is full, and the queue of \<open>s\<close> has room for one message per
  registered session and one more. The encoder does not fail. Then
  \<^verbatim>\<open>HandleUserData\<close> returns and sends one broadcast request, the announcement of \<open>s\<close>.
  Before that request is served, the queue of \<open>s\<close> has received the \<^verbatim>\<open>user-data\<close>
  message about \<open>s\<close> followed by one \<^verbatim>\<open>user-added\<close> message for each registered session
  whose id differs from the id of \<open>s\<close>, in the order of the iteration, and no other queue
  has changed. Serving the request appends the announcement to the queue of \<open>s\<close> and to
  the queue of every peer, and the registry keeps its members. When no peer shares the id
  of \<open>s\<close>, the sessions told to \<open>s\<close> are exactly its peers, one message each.
\<close>

theorem admission_sequence:
  assumes "enumerates order st"
    and "enumerates order' st"
    and "Clients st s = Some ok"
    and "\<forall>c\<in>dom (Clients st). \<not> closed (Send (heap st c))"
    and "\<forall>p\<in>dom (Clients st). p \<noteq> s \<longrightarrow> \<not> chan_full (Send (heap st p))"
    and "length (buf (Send (heap st s))) + length order + 1 \<le> cap (Send (heap st s))"
  shows "\<exists>st1 st2.
     HandleUserData (\<lambda>m. Some (enc m)) order s st
       = Inr (st1, [Broadcast (enc (newUserMsg (heap st s)))]) \<and>
     Run_step order' (Broadcast (enc (newUserMsg (heap st s)))) st1 = Inr st2 \<and>
     buf (Send (heap st1 s)) =
       buf (Send (heap st s)) @ enc (selfMessage (heap st s)) #
         map (\<lambda>p. enc (existingUserMsg (heap st p)))
           (filter (\<lambda>p. ID (heap st p) \<noteq> ID (heap st s)) order) \<and>
     buf (Send (heap st2 s)) = buf (Send (heap st1 s)) @ [enc (newUserMsg (heap st s))] \<and>
     (\<forall>p\<in>dom (Clients st). p \<noteq> s \<longrightarrow>
        buf (Send (heap st1 p)) = buf (Send (heap st p)) \<and>
        buf (Send (heap st2 p)) = buf (Send (heap st p)) @ [enc (newUserMsg (heap st s))]) \<and>
     dom (Clients st2) = dom (Clients st) \<and>
     ((\<forall>p\<in>dom (Clients st). p \<noteq> s \<longrightarrow> ID (heap st p) \<noteq> ID (heap st s)) \<longrightarrow>
        filter (\<lambda>p. ID (heap st p) \<noteq> ID (heap st s)) order = filter (\<lambda>p. p \<noteq> s) order \<and>
        length (filter (\<lambda>p. p \<noteq> s) order) = card (dom (Clients st)) - 1)"
proof -
  let ?m = "\<lambda>m. Some (enc m)"
  let ?peers = "filter (\<lambda>p. ID (heap st p) \<noteq> ID (heap st s)) order"
  let ?pm = "map (\<lambda>p. enc (existingUserMsg (heap st p))) ?peers"
  let ?ud = "enc (selfMessage (heap st s))"
  let ?ua = "enc (newUserMsg (heap st s))"
  let ?st1 = "push s (?ud # ?pm) st"
  let ?st2 = "after_broadcast order' ?ua ?st1"
  have mem: "set order = dom (Clients st)" and mem': "set order' = dom (Clients st)"
    and dist: "distinct order"
    using assms(1,2) by (simp_all add: enumerates_def)
  have s_in: "s \<in> dom (Clients st)"
    using assms(3) by auto
  then have s_ord: "s \<in> set order" using mem by simp
  have s_open: "\<not> closed (Send (heap st s))"
    using assms(4) s_in by simp
  have pm: "peer_messages ?m s order st = ?pm"
    by (rule peer_messages_total)
  have len: "length ?pm < length order"
    using length_peers [OF s_ord, of st] by simp
  have room: "length (buf (Send (heap st s))) + 1 + length (peer_messages ?m s order st)
      \<le> cap (Send (heap st s))"
    unfolding pm using len assms(6) by simp
  have self: "?m (selfMessage (heap st s)) = Some ?ud"
    by simp
  note raw = HandleUserData_eq [where marshal = ?m, OF self s_open room]
  have hud: "HandleUserData ?m order s st = Inr (?st1, [Broadcast ?ua])"
    using raw
    by (simp add: pm)
  have en1: "enumerates order' ?st1"
    using assms(2) by (simp add: enumerates_def push_simps)
  have s1: "Send (heap ?st1 s) = (Send (heap st s))\<lparr>buf := buf (Send (heap st s)) @ ?ud # ?pm\<rparr>"
    by (simp add: push_simps)
  have o1: "\<And>p. p \<noteq> s \<Longrightarrow> heap ?st1 p = heap st p"
    by (simp add: push_simps)
  have open1: "\<forall>c\<in>dom (Clients ?st1). \<not> closed (Send (heap ?st1 c))"
  proof
    fix c
    assume "c \<in> dom (Clients ?st1)"
    then have c: "c \<in> dom (Clients st)" by (simp add: push_simps)
    show "\<not> closed (Send (heap ?st1 c))"
    proof (cases "c = s")
      case True
      then show ?thesis using s_open by (simp add: s1)
    next
      case False
      then show ?thesis using assms(4) c by (simp add: o1)
    qed
  qed
  have run: "Run_step order' (Broadcast ?ua) ?st1 = Inr ?st2"
    by (rule Run_step_Broadcast_eq [OF en1 open1])
  have nf1: "\<not> chan_full (Send (heap ?st1 c))" if c: "c \<in> dom (Clients st)" for c
  proof (cases "c = s")
    case True
    have "length (buf (Send (heap st s)) @ ?ud # ?pm) < cap (Send (heap st s))"
      using len assms(6) by simp
    then show ?thesis
      unfolding True by (simp add: s1 chan_full_def)
  next
    case False
    then show ?thesis using assms(5) c by (simp add: o1)
  qed
  have buf2: "buf (Send (heap ?st2 c)) = buf (Send (heap ?st1 c)) @ [?ua]"
    if c: "c \<in> dom (Clients st)" for c
  proof -
    have "c \<in> set order'" using c mem' by simp
    then show ?thesis
      using nf1 [OF c] by (simp add: after_broadcast_simps dispatch_simps)
  qed
  have q1: "buf (Send (heap ?st1 s)) = buf (Send (heap st s)) @ ?ud # ?pm"
    by (simp add: s1)
  have q2: "buf (Send (heap ?st2 s)) = buf (Send (heap ?st1 s)) @ [?ua]"
    by (rule buf2 [OF s_in])
  have others: "\<forall>p\<in>dom (Clients st). p \<noteq> s \<longrightarrow>
        buf (Send (heap ?st1 p)) = buf (Send (heap st p)) \<and>
        buf (Send (heap ?st2 p)) = buf (Send (heap st p)) @ [?ua]"
  proof (intro ballI impI conjI)
    fix p
    assume p: "p \<in> dom (Clients st)" and ne: "p \<noteq> s"
    show "buf (Send (heap ?st1 p)) = buf (Send (heap st p))"
      using ne by (simp add: o1)
    show "buf (Send (heap ?st2 p)) = buf (Send (heap st p)) @ [?ua]"
      using buf2 [OF p] ne by (simp add: o1)
  qed
  have mem1: "set order' = dom (Clients ?st1)"
    using mem' by (simp add: push_simps)
  have "dom (Clients ?st1) - {c. chan_full (Send (heap ?st1 c))} = dom (Clients ?st1)"
    using nf1 by (auto simp: push_simps)
  then have d2: "dom (Clients ?st2) = dom (Clients st)"
    using dom_after_broadcast [OF mem1, of ?ua] by (simp add: push_simps)
  have uniq: "(\<forall>p\<in>dom (Clients st). p \<noteq> s \<longrightarrow> ID (heap st p) \<noteq> ID (heap st s)) \<longrightarrow>
        ?peers = filter (\<lambda>p. p \<noteq> s) order \<and>
        length (filter (\<lambda>p. p \<noteq> s) order) = card (dom (Clients st)) - 1"
  proof
    assume u: "\<forall>p\<in>dom (Clients st). p \<noteq> s \<longrightarrow> ID (heap st p) \<noteq> ID (heap st s)"
    have "?peers = filter (\<lambda>p. p \<noteq> s) order"
    proof (rule filter_cong [OF refl])
      fix p
      assume "p \<in> set order"
      then have "p \<in> dom (Clients st)" using mem by simp
      then show "(ID (heap st p) \<noteq> ID (heap st s)) = (p \<noteq> s)"
        using u by auto
    qed
    moreover have "length (filter (\<lambda>p. p \<noteq> s) order) = card (dom (Clients st)) - 1"
      using length_others [OF dist s_ord] mem by simp
    ultimately show "?peers = filter (\<lambda>p. p \<noteq> s) order \<and>
        length (filter (\<lambda>p. p \<noteq> s) order) = card (dom (Clients st)) - 1"
      by (intro conjI)
  qed
  from hud run q1 q2 others d2 uniq show ?thesis
    by (intro exI [of _ ?st1] exI [of _ ?st2] conjI)
qed


theorem admission_sequence_witness:
  "\<exists>st1 st2.
     HandleUserData (\<lambda>m. Some (example_encode m)) [10, 20, 30] 30 example_state
       = Inr (st1, [Broadcast ''user-added 10.0.0.3:5003'']) \<and>
     Run_step [30, 10, 20] (Broadcast ''user-added 10.0.0.3:5003'') st1 = Inr st2 \<and>
     buf (Send (heap st1 30)) =
       [''user-data 10.0.0.3:5003'', ''user-added 10.0.0.1:5001'', ''user-added 10.0.0.2:5002''] \<and>
     buf (Send (heap st2 30)) =
       [''user-data 10.0.0.3:5003'', ''user-added 10.0.0.1:5001'', ''user-added 10.0.0.2:5002'',
        ''user-added 10.0.0.3:5003''] \<and>
     buf (Send (heap st2 10)) = [''user-added 10.0.0.3:5003''] \<and>
     buf (Send (heap st2 20)) = [''user-added 10.0.0.3:5003''] \<and>
     dom (Clients st2) = {10, 20, 30} \<and>
     filter (\<lambda>p. ID (heap example_state p) \<noteq> ID (heap example_state 30)) [10, 20, 30] = [10, 20]"
proof -
  let ?ua = "''user-added 10.0.0.3:5003''"
  have e1: "enumerates [10, 20, 30] example_state"
    by (simp add: enumerates_def example_state_facts)
  note e2 = example_enumerates(1)
  have m: "Clients example_state 30 = Some True"
    by (simp add: example_state_def)
  note o = example_open(1)
  have nf: "\<forall>p\<in>dom (Clients example_state). p \<noteq> 30 \<longrightarrow>
      \<not> chan_full (Send (heap example_state p))"
    by (simp add: example_state_facts example_not_full)
  have room: "length (buf (Send (heap example_state 30))) + length [10, 20, 30 :: cref] + 1
      \<le> cap (Send (heap example_state 30))"
    by (simp add: example_heap_simps example_client_simps)
  have new: "example_encode (newUserMsg (heap example_state 30)) = ?ua"
    by (simp add: example_heap_simps example_messages example_encode_simps)
  have peers: "filter (\<lambda>p. ID (heap example_state p) \<noteq> ID (heap example_state 30)) [10, 20, 30]
      = [10, 20]"
    by (simp add: example_heap_simps example_client_simps)
  from admission_sequence [where enc = example_encode, OF e1 e2 m o nf room]
  obtain st1 st2 where hud: "HandleUserData (\<lambda>m. Some (example_encode m)) [10, 20, 30] 30 example_state
       = Inr (st1, [Broadcast (example_encode (newUserMsg (heap example_state 30)))])"
    and run: "Run_step [30, 10, 20]
       (Broadcast (example_encode (newUserMsg (heap example_state 30)))) st1 = Inr st2"
    and q1: "buf (Send (heap st1 30)) =
       buf (Send (heap example_state 30)) @ example_encode (selfMessage (heap example_state 30)) #
         map (\<lambda>p. example_encode (existingUserMsg (heap example_state p)))
           (filter (\<lambda>p. ID (heap example_state p) \<noteq> ID (heap example_state 30)) [10, 20, 30])"
    and q2: "buf (Send (heap st2 30)) = buf (Send (heap st1 30))
       @ [example_encode (newUserMsg (heap example_state 30))]"
    and others: "\<forall>p\<in>dom (Clients example_state). p \<noteq> 30 \<longrightarrow>
        buf (Send (heap st1 p)) = buf (Send (heap example_state p)) \<and>
        buf (Send (heap st2 p)) = buf (Send (heap example_state p))
          @ [example_encode (newUserMsg (heap example_state 30))]"
    and d: "dom (Clients st2) = dom (Clients example_state)"
    by (elim exE conjE) (rule that, assumption+)
  have hud': "HandleUserData (\<lambda>m. Some (example_encode m)) [10, 20, 30] 30 example_state
       = Inr (st1, [Broadcast ?ua])"
    using hud by (simp only: new)
  have run': "Run_step [30, 10, 20] (Broadcast ?ua) st1 = Inr st2"
    using run by (simp only: new)
  have q1': "buf (Send (heap st1 30)) =
       [''user-data 10.0.0.3:5003'', ''user-added 10.0.0.1:5001'', ''user-added 10.0.0.2:5002'']"
    unfolding q1 peers
    by (simp add: example_heap_simps example_messages example_encode_simps example_client_simps)
  have q2': "buf (Send (heap st2 30)) =
       [''user-data 10.0.0.3:5003'', ''user-added 10.0.0.1:5001'', ''user-added 10.0.0.2:5002'',
        ''user-added 10.0.0.3:5003'']"
    unfolding q2 q1' new by simp
  have in10: "(10::nat) \<in> dom (Clients example_state)"
    and in20: "(20::nat) \<in> dom (Clients example_state)"
    by (simp_all add: example_state_facts)
  have p10: "buf (Send (heap st2 10)) = [?ua]"
    using bspec [OF others in10] unfolding new
    by (simp add: example_heap_simps example_client_simps)
  have p20: "buf (Send (heap st2 20)) = [?ua]"
    using bspec [OF others in20] unfolding new
    by (simp add: example_heap_simps example_client_simps)
  have d': "dom (Clients st2) = {10, 20, 30}"
    using d by (simp only: example_state_facts)
  from hud' run' q1' q2' p10 p20 d' peers show ?thesis
    by (intro exI [of _ st1] exI [of _ st2] conjI)
qed

text \<open>
  Claim C3 as stated fails when a peer has the id of the new session, since
  \<^verbatim>\<open>HandleUserData\<close> tells sessions apart by id. Sessions 20 and 30 are registered with
  the same remote address; session 30 is admitted. Steps 1 and 2 leave only the
  \<^verbatim>\<open>user-data\<close> message in the queue of 30: it receives no \<^verbatim>\<open>user-added\<close> message about
  its peer 20.
\<close>

theorem admission_skips_peer_with_same_id:
  "Clients example_state_same_id 20 = Some True \<and>
   Clients example_state_same_id 30 = Some True \<and>
   ID (heap example_state_same_id 20) = ID (heap example_state_same_id 30) \<and>
   HandleUserData (\<lambda>m. Some (example_encode m)) [20, 30] 30 example_state_same_id
     = Inr (push 30 [''user-data 10.0.0.2:5002''] example_state_same_id,
            [Broadcast ''user-added 10.0.0.2:5002'']) \<and>
   outbound 30
     (map_sum id fst
        (HandleUserData (\<lambda>m. Some (example_encode m)) [20, 30] 30 example_state_same_id))
     = Inr [''user-data 10.0.0.2:5002'']"
proof -
  let ?m = "\<lambda>m. Some (example_encode m)"
  let ?st = example_state_same_id
  have h20: "heap ?st 20 = (example_client ''10.0.0.2:5002'' [])
      \<lparr>Client.Data := userData ''10.0.0.2:5002'' ''Panda'' ''hsl(99, 70%, 60%)''\<rparr>"
    and h30: "heap ?st 30 = example_client ''10.0.0.2:5002'' []"
    by (simp_all add: example_state_same_id_def)
  have c20: "Clients ?st 20 = Some True" and c30: "Clients ?st 30 = Some True"
    by (simp_all add: example_state_same_id_def)
  have ids: "ID (heap ?st 20) = ID (heap ?st 30)"
    by (simp add: h20 h30 example_client_simps)
  have pm: "peer_messages ?m 30 [20, 30] ?st = []"
    by (simp add: peer_messages_def ids map_filter_simps)
  have self: "?m (selfMessage (heap ?st 30)) = Some ''user-data 10.0.0.2:5002''"
    by (simp add: h30 example_messages example_encode_simps)
  have op: "\<not> closed (Send (heap ?st 30))"
    by (simp add: h30 example_client_simps)
  have room: "length (buf (Send (heap ?st 30))) + 1 + length (peer_messages ?m 30 [20, 30] ?st)
      \<le> cap (Send (heap ?st 30))"
    by (simp add: pm h30 example_client_simps)
  have new: "?m (newUserMsg (heap ?st 30)) = Some ''user-added 10.0.0.2:5002''"
    by (simp add: h30 example_messages example_encode_simps)
  have hud: "HandleUserData ?m [20, 30] 30 ?st
      = Inr (push 30 [''user-data 10.0.0.2:5002''] ?st, [Broadcast ''user-added 10.0.0.2:5002''])"
    using HandleUserData_eq [where marshal = ?m, OF self op room]
    by (simp only: pm new option.case)
  have out: "outbound 30 (map_sum id fst (HandleUserData ?m [20, 30] 30 ?st))
      = Inr [''user-data 10.0.0.2:5002'']"
    unfolding hud by (simp add: outbound_def push_simps h30 example_client_simps)
  from c20 c30 ids hud out show ?thesis
    by (intro conjI)
qed

section \<open>The queues of registered sessions stay open\<close>

text \<open>
  The claims about a broadcast assume that every registered session has an open queue.
  \<^verbatim>\<open>Run\<close> keeps it so: it closes a queue only together with deleting the session from
  the map, and a session is registered with the queue it was made with.
\<close>

lemma members_stay_open:
  assumes "Run_step order req st = Inr st'"
    and "enumerates order st"
    and "\<forall>c\<in>dom (Clients st). \<not> closed (Send (heap st c))"
    and "\<forall>c. req = Register c \<longrightarrow> \<not> closed (Send (heap st c))"
  shows "\<forall>c\<in>dom (Clients st'). \<not> closed (Send (heap st' c))"
proof (cases req)
  case (Register c)
  then have "st' = st\<lparr>Clients := (Clients st)(c \<mapsto> True)\<rparr>"
    using assms(1) by simp
  then show ?thesis
    using assms(3,4) Register by auto
next
  case (Unregister c)
  show ?thesis
  proof (cases "Clients st c")
    case None
    then have "st' = st" using assms(1) Unregister by simp
    then show ?thesis using assms(3) by simp
  next
    case (Some ok)
    then have "\<not> closed (Send (heap st c))"
      using assms(3) by auto
    then have "st' = (set_Send c ((Send (heap st c))\<lparr>closed := True\<rparr>) st)
            \<lparr>Clients := (Clients st)(c := None),
             started := started st @ [GoHandleDeleteUser c]\<rparr>"
      using assms(1) Unregister Run_step_Unregister_member [OF Some] by simp
    then show ?thesis
      using assms(3) by (auto simp: set_Send_def)
  qed
next
  case (Broadcast message)
  have st': "st' = after_broadcast order message st"
    using assms(1) Broadcast Run_step_Broadcast_eq [OF assms(2,3)] by simp
  have mem: "set order = dom (Clients st)"
    using assms(2) by (simp add: enumerates_def)
  show ?thesis
  proof
    fix c
    assume "c \<in> dom (Clients st')"
    then have "c \<in> dom (Clients st) - {c. chan_full (Send (heap st c))}"
      unfolding st' by (simp only: dom_after_broadcast [OF mem])
    then have c: "c \<in> dom (Clients st)" and nf: "\<not> chan_full (Send (heap st c))"
      by simp_all
    then have "Send (heap st' c) = (Send (heap st c))\<lparr>buf := buf (Send (heap st c)) @ [message]\<rparr>"
      unfolding st' using mem by (simp add: Send_after_broadcast)
    then show "\<not> closed (Send (heap st' c))"
      using assms(3) c by simp
  qed
qed

section \<open>Claims about identity over a session's life\<close>














end
